theory Spec2Isabelle
  imports Main "HOL-Library.AList" "HOL-Library.Sublist" "HOL-Library.Word"
begin

section \<open>Memory model\<close>

text \<open>
  The trie of \<^verbatim>\<open>src/trie/src.hpp\<close> is a graph of heap objects linked by
  \<^verbatim>\<open>std::shared_ptr\<close>; \<^verbatim>\<open>Trie::operator==\<close> compares root pointers, so the
  embedding keeps an explicit store. A pointer is an address (an index into the store); a
  fresh object gets the next unused index. Node objects and value payloads live in two
  separate address spaces. Reading an address that was never allocated is undefined
  behaviour in the source and unspecified here (\<open>xs ! i\<close> out of range). The pointers the
  source stores in a node are never null (they come from \<^verbatim>\<open>make_shared\<close> and \<^verbatim>\<open>Clone\<close>),
  so they are plain addresses; only \<^verbatim>\<open>Trie::root_\<close> and the result of \<^verbatim>\<open>Trie::Get\<close> can be
  null. The store never frees: an object the source destroys when its last owner goes is
  simply never read again.
\<close>

type_synonym addr = nat

text \<open>
  The class hierarchy: a plain \<^verbatim>\<open>TrieNode\<close>, or a \<^verbatim>\<open>TrieNodeWithValue<T>\<close>, whose
  dynamic type carries the template argument \<open>T\<close> (the type tag) and whose \<^verbatim>\<open>value_\<close>
  is a shared pointer to the payload. \<^verbatim>\<open>children_\<close> is a \<^verbatim>\<open>std::map<char, shared_ptr>\<close>,
  here an association list read with \<open>map_of\<close>. Member names lose their trailing
  underscore (\<^verbatim>\<open>children_\<close> is \<open>children\<close>, \<^verbatim>\<open>root_\<close> is \<open>root\<close>, and so on).
\<close>

datatype 'ty TrieNode =
    TrieNode (children: "(char \<times> addr) list") (is_value_node: bool)
  | TrieNodeWithValue (children: "(char \<times> addr) list") (is_value_node: bool)
      (value_type: 'ty) (value_ptr: addr)

record ('ty, 'v) heap =
  nodes :: "'ty TrieNode list"
  vals :: "'v list"

definition node_at :: "('ty, 'v) heap \<Rightarrow> addr \<Rightarrow> 'ty TrieNode" where
  "node_at h a = nodes h ! a"

definition value_at :: "('ty, 'v) heap \<Rightarrow> addr \<Rightarrow> 'v" where
  "value_at h p = vals h ! p"

text \<open>\<^verbatim>\<open>std::make_shared<TrieNode...>(...)\<close>: a new node object at a fresh address.\<close>

definition make_node :: "('ty, 'v) heap \<Rightarrow> 'ty TrieNode \<Rightarrow> addr \<times> ('ty, 'v) heap" where
  "make_node h n = (length (nodes h), h\<lparr>nodes := nodes h @ [n]\<rparr>)"

text \<open>\<^verbatim>\<open>std::make_shared<T>(std::move(value))\<close>: a new payload object.\<close>

definition make_value :: "('ty, 'v) heap \<Rightarrow> 'v \<Rightarrow> addr \<times> ('ty, 'v) heap" where
  "make_value h v = (length (vals h), h\<lparr>vals := vals h @ [v]\<rparr>)"

definition write_node :: "('ty, 'v) heap \<Rightarrow> addr \<Rightarrow> 'ty TrieNode \<Rightarrow> ('ty, 'v) heap" where
  "write_node h a n = h\<lparr>nodes := (nodes h)[a := n]\<rparr>"

fun set_children :: "'ty TrieNode \<Rightarrow> (char \<times> addr) list \<Rightarrow> 'ty TrieNode" where
  "set_children (TrieNode ch iv) ch' = TrieNode ch' iv"
| "set_children (TrieNodeWithValue ch iv T p) ch' = TrieNodeWithValue ch' iv T p"

fun set_is_value_node :: "'ty TrieNode \<Rightarrow> bool \<Rightarrow> 'ty TrieNode" where
  "set_is_value_node (TrieNode ch iv) iv' = TrieNode ch iv'"
| "set_is_value_node (TrieNodeWithValue ch iv T p) iv' = TrieNodeWithValue ch iv' T p"

text \<open>\<^verbatim>\<open>node->children_[c] = child\<close> on the node object at address \<open>a\<close>.\<close>

definition children_assign ::
  "('ty, 'v) heap \<Rightarrow> addr \<Rightarrow> char \<Rightarrow> addr \<Rightarrow> ('ty, 'v) heap" where
  "children_assign h a c child =
     write_node h a (set_children (node_at h a) (AList.update c child (children (node_at h a))))"

text \<open>\<^verbatim>\<open>node->children_.erase(c)\<close> on the node object at address \<open>a\<close>.\<close>

definition children_erase :: "('ty, 'v) heap \<Rightarrow> addr \<Rightarrow> char \<Rightarrow> ('ty, 'v) heap" where
  "children_erase h a c =
     write_node h a (set_children (node_at h a) (AList.delete c (children (node_at h a))))"

text \<open>
  \<^verbatim>\<open>Clone\<close> is virtual: \<^verbatim>\<open>TrieNode::Clone\<close> (lines 42-47) builds a default node and
  copies both fields; \<^verbatim>\<open>TrieNodeWithValue<T>::Clone\<close> (lines 82-87) builds a value node
  sharing \<^verbatim>\<open>value_\<close> and copies both fields. Children are copied as pointers.
\<close>

fun Clone_node :: "'ty TrieNode \<Rightarrow> 'ty TrieNode" where
  "Clone_node (TrieNode ch iv) =
     set_is_value_node (set_children (TrieNode [] False) ch) iv"
| "Clone_node (TrieNodeWithValue ch iv T p) =
     set_is_value_node (set_children (TrieNodeWithValue [] True T p) ch) iv"

definition Clone :: "('ty, 'v) heap \<Rightarrow> addr \<Rightarrow> addr \<times> ('ty, 'v) heap" where
  "Clone h a = make_node h (Clone_node (node_at h a))"


section \<open>Trie\<close>

text \<open>A \<^verbatim>\<open>Trie\<close> is its \<^verbatim>\<open>root_\<close> pointer; \<open>None\<close> is \<^verbatim>\<open>nullptr\<close> (the empty trie).\<close>

datatype Trie = Trie (root: "addr option")

text \<open>\<^verbatim>\<open>Trie::operator==\<close> (lines 113-119): identity of the root pointers.\<close>

definition Trie_eq :: "Trie \<Rightarrow> Trie \<Rightarrow> bool" where
  "Trie_eq t other = (if root t = root other then True else False)"

subsection \<open>Get (lines 125-147)\<close>

text \<open>The \<^verbatim>\<open>for (auto c : key)\<close> loop of lines 131-137; \<open>None\<close> is the early return.\<close>

fun Get_walk :: "('ty, 'v) heap \<Rightarrow> addr \<Rightarrow> string \<Rightarrow> addr option" where
  "Get_walk h cur [] = Some cur"
| "Get_walk h cur (c # key) =
     (case map_of (children (node_at h cur)) c of
        None \<Rightarrow> None
      | Some child \<Rightarrow> Get_walk h child key)"

text \<open>
  Lines 139-146 on the landing node: the flag test, then the \<^verbatim>\<open>dynamic_cast\<close> to
  \<^verbatim>\<open>TrieNodeWithValue<T>\<close>, which succeeds exactly when the dynamic type carries the
  requested tag. The result is the raw pointer \<^verbatim>\<open>value_.get()\<close>; \<open>None\<close> is \<^verbatim>\<open>nullptr\<close>.
\<close>

definition Get_value :: "'ty TrieNode \<Rightarrow> 'ty \<Rightarrow> addr option" where
  "Get_value n T =
     (if \<not> is_value_node n then None
      else (case n of
              TrieNode ch iv \<Rightarrow> None
            | TrieNodeWithValue ch iv U p \<Rightarrow> if U = T then Some p else None))"

definition Get :: "('ty, 'v) heap \<Rightarrow> Trie \<Rightarrow> 'ty \<Rightarrow> string \<Rightarrow> addr option" where
  "Get h t T key =
     (case root t of
        None \<Rightarrow> None
      | Some r \<Rightarrow>
          (case Get_walk h r key of
             None \<Rightarrow> None
           | Some cur \<Rightarrow> Get_value (node_at h cur) T))"

subsection \<open>Put (lines 151-214)\<close>

text \<open>
  The first loop of the empty-trie branch (lines 159-164): every step pushes
  \<open>(cur, c)\<close>, makes a new node, links it under \<open>cur\<close> and moves to it. The path stack
  is a list with its top at the head.
\<close>

fun Put_descend_empty ::
  "('ty, 'v) heap \<Rightarrow> addr \<Rightarrow> (addr \<times> char) list \<Rightarrow> string
     \<Rightarrow> ('ty, 'v) heap \<times> addr \<times> (addr \<times> char) list" where
  "Put_descend_empty h cur path [] = (h, cur, path)"
| "Put_descend_empty h cur path (c # key) =
     (let (newNode, h1) = make_node h (TrieNode [] False);
          h2 = children_assign h1 cur c newNode
      in Put_descend_empty h2 newNode ((cur, c) # path) key)"

text \<open>
  The first loop of the general branch (lines 184-198): push \<open>(cur, c)\<close>; a missing
  child is created, an existing child is cloned; either is linked under \<open>cur\<close>.
\<close>

fun Put_descend ::
  "('ty, 'v) heap \<Rightarrow> addr \<Rightarrow> (addr \<times> char) list \<Rightarrow> string
     \<Rightarrow> ('ty, 'v) heap \<times> addr \<times> (addr \<times> char) list" where
  "Put_descend h cur path [] = (h, cur, path)"
| "Put_descend h cur path (c # key) =
     (case map_of (children (node_at h cur)) c of
        None \<Rightarrow>
          (let (newNode, h1) = make_node h (TrieNode [] False);
               h2 = children_assign h1 cur c newNode
           in Put_descend h2 newNode ((cur, c) # path) key)
      | Some child \<Rightarrow>
          (let (clonedChild, h1) = Clone h child;
               h2 = children_assign h1 cur c clonedChild
           in Put_descend h2 clonedChild ((cur, c) # path) key))"

text \<open>The unwinding loop (lines 171-176 and 206-211).\<close>

fun Put_unwind ::
  "('ty, 'v) heap \<Rightarrow> addr \<Rightarrow> (addr \<times> char) list \<Rightarrow> ('ty, 'v) heap \<times> addr" where
  "Put_unwind h cur [] = (h, cur)"
| "Put_unwind h cur ((parent, c) # path) =
     Put_unwind (children_assign h parent c cur) parent path"

definition Put ::
  "('ty, 'v) heap \<Rightarrow> Trie \<Rightarrow> string \<Rightarrow> 'ty \<Rightarrow> 'v \<Rightarrow> Trie \<times> ('ty, 'v) heap" where
  "Put h t key T v =
     (case root t of
        None \<Rightarrow>
          (let (cur0, h1) = make_node h (TrieNode [] False);
               (h2, cur, path) = Put_descend_empty h1 cur0 [] key;
               (p, h3) = make_value h2 v;
               (valueNode, h4) =
                  make_node h3 (TrieNodeWithValue (children (node_at h3 cur)) True T p);
               (h5, r) = Put_unwind h4 valueNode path
           in (Trie (Some r), h5))
      | Some r \<Rightarrow>
          (let (cur0, h1) = Clone h r;
               (h2, cur, path) = Put_descend h1 cur0 [] key;
               (p, h3) = make_value h2 v;
               (valueNode, h4) =
                  make_node h3 (TrieNodeWithValue (children (node_at h3 cur)) True T p);
               (h5, r) = Put_unwind h4 valueNode path
           in (Trie (Some r), h5)))"

subsection \<open>Remove (lines 219-266)\<close>

text \<open>
  The descent (lines 230-240): a missing child ends the call (\<open>None\<close>, the caller returns
  \<^verbatim>\<open>*this\<close>); an existing child is cloned, linked under \<open>current\<close> and pushed.
\<close>

fun Remove_descend ::
  "('ty, 'v) heap \<Rightarrow> addr \<Rightarrow> (addr \<times> char) list \<Rightarrow> string
     \<Rightarrow> ('ty, 'v) heap \<times> (addr \<times> (addr \<times> char) list) option" where
  "Remove_descend h current path [] = (h, Some (current, path))"
| "Remove_descend h current path (c # key) =
     (case map_of (children (node_at h current)) c of
        None \<Rightarrow> (h, None)
      | Some child \<Rightarrow>
          (let (cloned_child, h1) = Clone h child;
               h2 = children_assign h1 current c cloned_child
           in Remove_descend h2 cloned_child ((current, c) # path) key))"

text \<open>
  The backward loop (lines 252-259): the entry of \<open>parent\<close> is erased when the node just
  left has no children and is not a value node; the walk continues upwards in any case.
  The \<^verbatim>\<open>dynamic_pointer_cast\<close> of line 248 casts a pointer to its own type and changes
  nothing.
\<close>

fun Remove_unwind ::
  "('ty, 'v) heap \<Rightarrow> addr \<Rightarrow> (addr \<times> char) list \<Rightarrow> ('ty, 'v) heap" where
  "Remove_unwind h current [] = h"
| "Remove_unwind h current ((parent, c) # path) =
     (let h1 = (if children (node_at h current) = [] \<and> \<not> is_value_node (node_at h current)
                then children_erase h parent c else h)
      in Remove_unwind h1 parent path)"

definition Remove ::
  "('ty, 'v) heap \<Rightarrow> Trie \<Rightarrow> string \<Rightarrow> Trie \<times> ('ty, 'v) heap" where
  "Remove h t key =
     (case root t of
        None \<Rightarrow> (t, h)
      | Some r \<Rightarrow>
          (let (new_root, h1) = Clone h r
           in case Remove_descend h1 new_root [] key of
                (h2, None) \<Rightarrow> (t, h2)
              | (h2, Some (current, path)) \<Rightarrow>
                  if \<not> is_value_node (node_at h2 current) then (t, h2)
                  else
                    (let h3 = write_node h2 current
                                (set_is_value_node (node_at h2 current) False);
                         h4 = Remove_unwind h3 current path
                     in if children (node_at h4 new_root) = []
                           \<and> \<not> is_value_node (node_at h4 new_root)
                        then (Trie None, h4)
                        else (Trie (Some new_root), h4))))"


section \<open>ValueGuard and TrieStore\<close>

text \<open>
  \<^verbatim>\<open>size_t\<close> is a 64-bit word; \<^verbatim>\<open>static_cast<size_t>(-1)\<close> is \<open>- 1\<close>, the largest word.
  \<^verbatim>\<open>snapshots_.size()\<close> is the length of the vector read as a word.
\<close>

type_synonym size_t = "64 word"

record ValueGuard =
  guard_root :: Trie
  guard_value :: addr

record TrieStore =
  snapshots :: "Trie list"

text \<open>The member initialiser \<^verbatim>\<open>snapshots_{1}\<close>: one default-constructed, empty trie.\<close>

definition TrieStore_init :: TrieStore where
  "TrieStore_init = \<lparr>snapshots = [Trie None]\<rparr>"

definition vec_size :: "Trie list \<Rightarrow> size_t" where
  "vec_size xs = word_of_nat (length xs)"

text \<open>\<^verbatim>\<open>TrieStore::Get\<close> (lines 301-323); \<open>None\<close> is \<^verbatim>\<open>std::nullopt\<close>.\<close>

definition TrieStore_Get ::
  "TrieStore \<Rightarrow> ('ty, 'v) heap \<Rightarrow> 'ty \<Rightarrow> string \<Rightarrow> size_t \<Rightarrow> ValueGuard option" where
  "TrieStore_Get s h T key version =
     (if version = - 1 \<and> snapshots s = [] then None
      else
        (let target_version =
               (if version = - 1 then vec_size (snapshots s) - 1 else version)
         in if target_version \<ge> vec_size (snapshots s) then None
            else
              (let target_trie = snapshots s ! unat target_version
               in case Get h target_trie T key of
                    None \<Rightarrow> None
                  | Some v \<Rightarrow> Some \<lparr>guard_root = target_trie, guard_value = v\<rparr>)))"

text \<open>
  \<^verbatim>\<open>TrieStore::Put\<close> (lines 330-340). \<^verbatim>\<open>snapshots_.back()\<close> is \<open>last\<close>, unspecified on
  an empty vector as in the source.
\<close>

definition TrieStore_Put ::
  "TrieStore \<Rightarrow> ('ty, 'v) heap \<Rightarrow> string \<Rightarrow> 'ty \<Rightarrow> 'v
     \<Rightarrow> size_t \<times> TrieStore \<times> ('ty, 'v) heap" where
  "TrieStore_Put s h key T v =
     (let current_trie = last (snapshots s);
          (new_trie, h1) = Put h current_trie key T v;
          s1 = s\<lparr>snapshots := snapshots s @ [new_trie]\<rparr>
      in (vec_size (snapshots s1) - 1, s1, h1))"

text \<open>\<^verbatim>\<open>TrieStore::Remove\<close> (lines 345-356).\<close>

definition TrieStore_Remove ::
  "TrieStore \<Rightarrow> ('ty, 'v) heap \<Rightarrow> string \<Rightarrow> size_t \<times> TrieStore \<times> ('ty, 'v) heap" where
  "TrieStore_Remove s h key =
     (let current_trie = last (snapshots s);
          (new_trie, h1) = Remove h current_trie key
      in if Trie_eq new_trie current_trie then (vec_size (snapshots s) - 1, s, h1)
         else
           (let s1 = s\<lparr>snapshots := snapshots s @ [new_trie]\<rparr>
            in (vec_size (snapshots s1) - 1, s1, h1)))"

text \<open>\<^verbatim>\<open>TrieStore::get_version\<close> (lines 359-362).\<close>

definition get_version :: "TrieStore \<Rightarrow> size_t" where
  "get_version s = (if snapshots s = [] then 0 else vec_size (snapshots s) - 1)"


section \<open>Vocabulary of the properties\<close>

subsection \<open>Well-formed stores\<close>

text \<open>
  A store is well formed when no pointer dangles: every child pointer of every node object
  and every value pointer is an allocated address; a trie is well formed in a store that
  holds its root. The empty store is well formed, and \<open>Put\<close> and \<open>Remove\<close> keep stores and
  tries well formed (\<open>Put_ok\<close>, \<open>Remove_ok\<close> below), so these are the states the program
  reaches.
\<close>

definition wf_node :: "('ty, 'v) heap \<Rightarrow> 'ty TrieNode \<Rightarrow> bool" where
  "wf_node h n =
     (list_all (\<lambda>(c, a). a < length (nodes h)) (children n) \<and>
      (case n of TrieNode ch iv \<Rightarrow> True
               | TrieNodeWithValue ch iv T p \<Rightarrow> p < length (vals h)))"

definition wf_heap :: "('ty, 'v) heap \<Rightarrow> bool" where
  "wf_heap h = list_all (wf_node h) (nodes h)"

definition wf_trie :: "('ty, 'v) heap \<Rightarrow> Trie \<Rightarrow> bool" where
  "wf_trie h t = (case root t of None \<Rightarrow> True | Some r \<Rightarrow> r < length (nodes h))"

text \<open>
  \<open>heap_extends h h'\<close>: every object of \<open>h\<close> is in \<open>h'\<close> at the same address with the same
  contents; \<open>h'\<close> may hold more objects.
\<close>

definition heap_extends :: "('ty, 'v) heap \<Rightarrow> ('ty, 'v) heap \<Rightarrow> bool" where
  "heap_extends h h' = (prefix (nodes h) (nodes h') \<and> prefix (vals h) (vals h'))"

subsection \<open>Nodes and keys\<close>

text \<open>
  The node a key leads to: the walk of \<open>Get\<close> from the root, without the final test of the
  value. Two tries share the node of a key when \<open>find_node\<close> gives the same address.
\<close>

definition find_node :: "('ty, 'v) heap \<Rightarrow> Trie \<Rightarrow> string \<Rightarrow> addr option" where
  "find_node h t key = (case root t of None \<Rightarrow> None | Some r \<Rightarrow> Get_walk h r key)"

text \<open>
  A key is stored when its node exists and is flagged as a value node (the test of
  \<open>Remove\<close>, line 243); it is stored with type \<open>U\<close> when that node's dynamic type is
  \<^verbatim>\<open>TrieNodeWithValue<U>\<close>.
\<close>

definition stored :: "('ty, 'v) heap \<Rightarrow> Trie \<Rightarrow> string \<Rightarrow> bool" where
  "stored h t key =
     (case find_node h t key of None \<Rightarrow> False | Some a \<Rightarrow> is_value_node (node_at h a))"

definition stored_as :: "('ty, 'v) heap \<Rightarrow> Trie \<Rightarrow> string \<Rightarrow> 'ty \<Rightarrow> bool" where
  "stored_as h t key U =
     (case find_node h t key of
        None \<Rightarrow> False
      | Some a \<Rightarrow> (case node_at h a of
                     TrieNode ch iv \<Rightarrow> False
                   | TrieNodeWithValue ch iv U' p \<Rightarrow> iv \<and> U' = U))"

text \<open>
  \<open>bare h t k q\<close>: the node of \<open>q\<close> carries nothing but the path to \<open>k\<close>. It holds no value
  (unless it is the node of \<open>k\<close> itself, whose value the removal takes) and has no child
  other than the next one towards \<open>k\<close>; the node of \<open>k\<close> has no child at all.
\<close>

definition bare :: "('ty, 'v) heap \<Rightarrow> Trie \<Rightarrow> string \<Rightarrow> string \<Rightarrow> bool" where
  "bare h t k q =
     ((q \<noteq> k \<longrightarrow> \<not> stored h t q) \<and>
      (\<forall>c. find_node h t (q @ [c]) \<noteq> None \<longrightarrow> prefix (q @ [c]) k))"

subsection \<open>Invariants of the path-copying loops\<close>

text \<open>
  \<open>orig h0 t key\<close> is the contents of the node of \<open>key\<close> in the trie the operation started
  from, or a childless plain node when the trie has no such node: what the descent of
  \<open>Put\<close> copies or creates at that depth.
\<close>

definition orig :: "('ty, 'v) heap \<Rightarrow> Trie \<Rightarrow> string \<Rightarrow> 'ty TrieNode" where
  "orig h t key = (case find_node h t key of None \<Rightarrow> TrieNode [] False | Some a \<Rightarrow> node_at h a)"

text \<open>
  The path stack holds, top first, the copied ancestors with the character taken at each;
  \<open>path_key\<close> is the part of the key consumed so far and \<open>bottom\<close> the node the unwinding
  ends at (the new root).
\<close>

definition path_key :: "(addr \<times> char) list \<Rightarrow> string" where
  "path_key path = rev (map snd path)"

fun bottom :: "(addr \<times> char) list \<Rightarrow> addr \<Rightarrow> addr" where
  "bottom [] cur = cur"
| "bottom ((p, c) # path) cur = bottom path p"

text \<open>A node after \<^verbatim>\<open>children_[c] = a\<close>.\<close>

definition linked :: "'ty TrieNode \<Rightarrow> char \<Rightarrow> addr \<Rightarrow> 'ty TrieNode" where
  "linked n c a = set_children n (AList.update c a (children n))"

text \<open>
  \<open>link_inv h0 t h path cur\<close>: every node on the stack was allocated during the operation
  (its address is not one of \<open>h0\<close>), lies below the node above it, and is the original node
  of its depth with the child for its character set to the node above it; the topmost
  points to \<open>cur\<close>.
\<close>

fun link_inv ::
  "('ty, 'v) heap \<Rightarrow> Trie \<Rightarrow> ('ty, 'v) heap \<Rightarrow> (addr \<times> char) list \<Rightarrow> addr \<Rightarrow> bool" where
  "link_inv h0 t h [] cur = True"
| "link_inv h0 t h ((p, c) # path) cur =
     (length (nodes h0) \<le> p \<and> p < cur \<and>
      node_at h p = linked (orig h0 t (path_key path)) c cur \<and>
      link_inv h0 t h path p)"

text \<open>The invariant of the descent: \<open>cur\<close> is a fresh, still unmodified copy.\<close>

definition desc_inv ::
  "('ty, 'v) heap \<Rightarrow> Trie \<Rightarrow> ('ty, 'v) heap \<Rightarrow> addr \<Rightarrow> (addr \<times> char) list \<Rightarrow> bool" where
  "desc_inv h0 t h cur path =
     (wf_heap h \<and> heap_extends h0 h \<and> vals h = vals h0 \<and>
      length (nodes h0) \<le> cur \<and> cur < length (nodes h) \<and>
      node_at h cur = orig h0 t (path_key path) \<and> link_inv h0 t h path cur)"

text \<open>The state in which \<open>Put\<close> returns.\<close>

definition put_final ::
  "('ty, 'v) heap \<Rightarrow> Trie \<Rightarrow> string \<Rightarrow> 'ty \<Rightarrow> 'v \<Rightarrow> Trie \<Rightarrow> ('ty, 'v) heap
     \<Rightarrow> (addr \<times> char) list \<Rightarrow> addr \<Rightarrow> bool" where
  "put_final h0 t key T v t' hf path vn =
     (t' = Trie (Some (bottom path vn)) \<and> wf_heap hf \<and> heap_extends h0 hf \<and>
      link_inv h0 t hf path vn \<and> path_key path = key \<and>
      length (nodes h0) < vn \<and> vn < length (nodes hf) \<and>
      node_at hf vn = TrieNodeWithValue (children (orig h0 t key)) True T (length (vals h0)) \<and>
      vals hf = vals h0 @ [v])"

text \<open>
  The pruning test of lines 255 and 261, and a node after \<^verbatim>\<open>children_.erase(c)\<close>.
\<close>

definition dead :: "'ty TrieNode \<Rightarrow> bool" where
  "dead n = (children n = [] \<and> \<not> is_value_node n)"

definition erased :: "'ty TrieNode \<Rightarrow> char \<Rightarrow> 'ty TrieNode" where
  "erased n c = set_children n (AList.delete c (children n))"

text \<open>
  The stack after the backward loop of \<open>Remove\<close>: as \<open>link_inv\<close>, except that a node whose
  child on the path ended up without children and value has lost the entry for it.
\<close>

fun pruned_inv ::
  "('ty, 'v) heap \<Rightarrow> Trie \<Rightarrow> ('ty, 'v) heap \<Rightarrow> (addr \<times> char) list \<Rightarrow> addr \<Rightarrow> bool" where
  "pruned_inv h0 t h [] cur = True"
| "pruned_inv h0 t h ((p, c) # path) cur =
     (length (nodes h0) \<le> p \<and> p < cur \<and>
      node_at h p = (if dead (node_at h cur) then erased (orig h0 t (path_key path)) c
                     else linked (orig h0 t (path_key path)) c cur) \<and>
      pruned_inv h0 t h path p)"

text \<open>\<open>Get\<close> started at a node instead of the root.\<close>

definition Get_from :: "('ty, 'v) heap \<Rightarrow> addr \<Rightarrow> 'ty \<Rightarrow> string \<Rightarrow> addr option" where
  "Get_from h a T ks = (case Get_walk h a ks of None \<Rightarrow> None | Some b \<Rightarrow> Get_value (node_at h b) T)"

text \<open>The state in which \<open>Remove\<close> returns after removing a stored key.\<close>

definition remove_final ::
  "('ty, 'v) heap \<Rightarrow> Trie \<Rightarrow> string \<Rightarrow> Trie \<Rightarrow> ('ty, 'v) heap
     \<Rightarrow> (addr \<times> char) list \<Rightarrow> addr \<Rightarrow> bool" where
  "remove_final h0 t key t' hf path cur =
     (wf_heap hf \<and> heap_extends h0 hf \<and> vals hf = vals h0 \<and>
      pruned_inv h0 t hf path cur \<and> path_key path = key \<and>
      length (nodes h0) \<le> cur \<and> cur < length (nodes hf) \<and>
      length (nodes h0) \<le> bottom path cur \<and>
      node_at hf cur = set_is_value_node (orig h0 t key) False \<and>
      t' = (if dead (node_at hf (bottom path cur)) then Trie None
            else Trie (Some (bottom path cur))))"

subsection \<open>Stores of snapshots\<close>

text \<open>
  A \<open>TrieStore\<close> is well formed with a store of objects when it has a snapshot (it is
  constructed with one and the vector only grows) and all its snapshots are well formed.
  A run of the store is a list of \<open>Put\<close> and \<open>Remove\<close> calls, applied in order; the write
  lock of the source serialises the calls, and the embedding is sequential.
\<close>

definition wf_store :: "TrieStore \<Rightarrow> ('ty, 'v) heap \<Rightarrow> bool" where
  "wf_store s h = (snapshots s \<noteq> [] \<and> wf_heap h \<and> list_all (wf_trie h) (snapshots s))"

datatype ('ty, 'v) store_op = Op_Put string 'ty 'v | Op_Remove string

fun apply_op ::
  "TrieStore \<Rightarrow> ('ty, 'v) heap \<Rightarrow> ('ty, 'v) store_op \<Rightarrow> TrieStore \<times> ('ty, 'v) heap" where
  "apply_op s h (Op_Put key T v) = snd (TrieStore_Put s h key T v)"
| "apply_op s h (Op_Remove key) = snd (TrieStore_Remove s h key)"

fun apply_ops ::
  "TrieStore \<Rightarrow> ('ty, 'v) heap \<Rightarrow> ('ty, 'v) store_op list \<Rightarrow> TrieStore \<times> ('ty, 'v) heap" where
  "apply_ops s h [] = (s, h)"
| "apply_ops s h (x # xs) = (case apply_op s h x of (s1, h1) \<Rightarrow> apply_ops s1 h1 xs)"

subsection \<open>Shared ownership\<close>

text \<open>
  A \<open>Trie\<close> handle owns its root through a \<^verbatim>\<open>shared_ptr\<close>, a node owns its children
  through the \<^verbatim>\<open>shared_ptr\<close>s of \<^verbatim>\<open>children_\<close>, and a value node owns its payload through
  \<^verbatim>\<open>value_\<close>. An object managed by \<^verbatim>\<open>shared_ptr\<close> is destroyed only when its last
  owner is, so the objects a handle reaches through owning pointers are alive while the
  handle is held. \<open>alive_nodes h handles\<close> and \<open>alive_values h handles\<close> are the objects kept
  alive by a list of held handles.
\<close>

definition owned_nodes :: "('ty, 'v) heap \<Rightarrow> Trie \<Rightarrow> addr set" where
  "owned_nodes h t = {a. \<exists>ks. find_node h t ks = Some a}"

definition owned_values :: "('ty, 'v) heap \<Rightarrow> Trie \<Rightarrow> addr set" where
  "owned_values h t =
     {p. \<exists>a \<in> owned_nodes h t. \<exists>ch iv T. node_at h a = TrieNodeWithValue ch iv T p}"

definition alive_nodes :: "('ty, 'v) heap \<Rightarrow> Trie list \<Rightarrow> addr set" where
  "alive_nodes h handles = (\<Union>t \<in> set handles. owned_nodes h t)"

definition alive_values :: "('ty, 'v) heap \<Rightarrow> Trie list \<Rightarrow> addr set" where
  "alive_values h handles = (\<Union>t \<in> set handles. owned_values h t)"

subsection \<open>Example states\<close>

text \<open>
  Concrete states, all computed by the operations themselves from the empty store, with
  type tags written as strings and integer payloads: the trie holding 1 under \<open>''a''\<close>; then
  2 under \<open>''ab''\<close>; then \<open>''ab''\<close> removed; the trie holding 1 under the empty key; and the
  \<open>TrieStore\<close> after its first \<open>Put\<close>.
\<close>

definition heap_init :: "(string, int) heap" where
  "heap_init = \<lparr>nodes = [], vals = []\<rparr>"

definition ex_trie :: Trie where
  "ex_trie = fst (Put heap_init (Trie None) ''a'' ''int'' 1)"

definition ex_heap :: "(string, int) heap" where
  "ex_heap = snd (Put heap_init (Trie None) ''a'' ''int'' 1)"

definition ex_trie2 :: Trie where
  "ex_trie2 = fst (Put ex_heap ex_trie ''ab'' ''int'' 2)"

definition ex_heap2 :: "(string, int) heap" where
  "ex_heap2 = snd (Put ex_heap ex_trie ''ab'' ''int'' 2)"

definition ex_trie3 :: Trie where
  "ex_trie3 = fst (Remove ex_heap2 ex_trie2 ''ab'')"

definition ex_heap3 :: "(string, int) heap" where
  "ex_heap3 = snd (Remove ex_heap2 ex_trie2 ''ab'')"

definition ex_root_trie :: Trie where
  "ex_root_trie = fst (Put heap_init (Trie None) [] ''int'' 1)"

definition ex_root_heap :: "(string, int) heap" where
  "ex_root_heap = snd (Put heap_init (Trie None) [] ''int'' 1)"

definition ex_store :: TrieStore where
  "ex_store = fst (snd (TrieStore_Put TrieStore_init heap_init ''a'' ''int'' 1))"


section \<open>Supporting lemmas\<close>

subsection \<open>Nodes and the store\<close>

lemma Clone_node_id [simp]: "Clone_node n = n"
  by (cases n) simp_all

lemma children_set_children [simp]: "children (set_children n ch) = ch"
  by (cases n) simp_all

lemma is_value_node_set_children [simp]: "is_value_node (set_children n ch) = is_value_node n"
  by (cases n) simp_all

lemma set_children_twice [simp]: "set_children (set_children n ch) ch' = set_children n ch'"
  by (cases n) simp_all

lemma set_children_same [simp]: "set_children n (children n) = n"
  by (cases n) simp_all

lemma children_set_is_value_node [simp]: "children (set_is_value_node n b) = children n"
  by (cases n) simp_all

lemma is_value_node_set_is_value_node [simp]: "is_value_node (set_is_value_node n b) = b"
  by (cases n) simp_all

lemma Get_value_set_children [simp]: "Get_value (set_children n ch) T = Get_value n T"
  by (cases n) (simp_all add: Get_value_def)

lemma Get_value_not_value [simp]: "\<not> is_value_node n \<Longrightarrow> Get_value n T = None"
  by (simp add: Get_value_def)

lemma nodes_make_node [simp]: "nodes (snd (make_node h n)) = nodes h @ [n]"
  and vals_make_node [simp]: "vals (snd (make_node h n)) = vals h"
  and fst_make_node [simp]: "fst (make_node h n) = length (nodes h)"
  by (simp_all add: make_node_def)

lemma nodes_make_value [simp]: "nodes (snd (make_value h v)) = nodes h"
  and vals_make_value [simp]: "vals (snd (make_value h v)) = vals h @ [v]"
  and fst_make_value [simp]: "fst (make_value h v) = length (vals h)"
  by (simp_all add: make_value_def)

lemma nodes_write_node [simp]: "nodes (write_node h a n) = (nodes h)[a := n]"
  and vals_write_node [simp]: "vals (write_node h a n) = vals h"
  by (simp_all add: write_node_def)

lemma write_node_same [simp]: "write_node h a (node_at h a) = h"
  by (simp add: write_node_def node_at_def)

lemma node_at_write_node:
  "node_at (write_node h a n) b = (if b = a \<and> a < length (nodes h) then n else node_at h b)"
  by (auto simp: node_at_def list_update_beyond)

lemma node_at_make_node:
  "node_at (snd (make_node h n)) b =
     (if b < length (nodes h) then node_at h b else if b = length (nodes h) then n else node_at (snd (make_node h n)) b)"
  by (simp add: node_at_def nth_append)

lemma node_at_make_value [simp]: "node_at (snd (make_value h v)) b = node_at h b"
  by (simp add: node_at_def)

lemma children_assign_alt: "children_assign h a c b = write_node h a (linked (node_at h a) c b)"
  by (simp add: children_assign_def linked_def)

lemma linked_linked [simp]: "linked (linked n c a) c b = linked n c b"
  by (simp add: linked_def)

lemma map_of_children_linked:
  "map_of (children (linked n c a)) c' = (if c' = c then Some a else map_of (children n) c')"
  by (simp add: linked_def update_conv')

lemma is_value_node_linked [simp]: "is_value_node (linked n c a) = is_value_node n"
  by (simp add: linked_def)

lemma Get_value_linked [simp]: "Get_value (linked n c a) T = Get_value n T"
  by (simp add: linked_def)

lemma children_linked_nonempty [simp]: "children (linked n c a) \<noteq> []"
  by (simp add: linked_def)

subsection \<open>Extension of the store\<close>

lemma heap_extends_refl [simp]: "heap_extends h h"
  by (simp add: heap_extends_def)

lemma heap_extends_trans: "heap_extends h1 h2 \<Longrightarrow> heap_extends h2 h3 \<Longrightarrow> heap_extends h1 h3"
  by (auto simp: heap_extends_def)

lemma heap_extends_length: "heap_extends h h' \<Longrightarrow> length (nodes h) \<le> length (nodes h')"
  by (auto simp: heap_extends_def dest: prefix_length_le)

lemma heap_extends_length_vals: "heap_extends h h' \<Longrightarrow> length (vals h) \<le> length (vals h')"
  by (auto simp: heap_extends_def dest: prefix_length_le)

lemma heap_extends_node_at: "heap_extends h h' \<Longrightarrow> a < length (nodes h) \<Longrightarrow> node_at h' a = node_at h a"
  by (auto simp: heap_extends_def node_at_def prefix_def nth_append)

lemma heap_extends_value_at: "heap_extends h h' \<Longrightarrow> p < length (vals h) \<Longrightarrow> value_at h' p = value_at h p"
  by (auto simp: heap_extends_def value_at_def prefix_def nth_append)

lemma heap_extends_make_node: "heap_extends h0 h \<Longrightarrow> heap_extends h0 (snd (make_node h n))"
  by (auto simp: heap_extends_def prefix_def)

lemma heap_extends_make_value: "heap_extends h0 h \<Longrightarrow> heap_extends h0 (snd (make_value h v))"
  by (auto simp: heap_extends_def prefix_def)

lemma heap_extends_write_node:
  "heap_extends h0 h \<Longrightarrow> length (nodes h0) \<le> a \<Longrightarrow> heap_extends h0 (write_node h a n)"
  by (auto simp: heap_extends_def prefix_def list_update_append)

subsection \<open>Well-formedness is kept by every primitive\<close>

lemma wf_node_mono:
  "wf_node h n \<Longrightarrow> length (nodes h) \<le> length (nodes h') \<Longrightarrow> length (vals h) \<le> length (vals h')
     \<Longrightarrow> wf_node h' n"
  by (cases n) (auto simp: wf_node_def list_all_iff)

lemma wf_heap_node_at: "wf_heap h \<Longrightarrow> a < length (nodes h) \<Longrightarrow> wf_node h (node_at h a)"
  by (simp add: wf_heap_def node_at_def list_all_length)

lemma wf_node_child:
  "wf_node h n \<Longrightarrow> map_of (children n) c = Some b \<Longrightarrow> b < length (nodes h)"
  by (auto simp: wf_node_def list_all_iff dest: map_of_SomeD)

lemma wf_node_empty [simp]: "wf_node h (TrieNode [] iv)"
  by (simp add: wf_node_def)

lemma set_AList_update:
  "(k, v) \<in> set (AList.update c b al) \<Longrightarrow> (k, v) = (c, b) \<or> (k, v) \<in> set al"
  by (induction al) (auto split: if_splits)

lemma wf_node_linked: "wf_node h n \<Longrightarrow> b < length (nodes h) \<Longrightarrow> wf_node h (linked n c b)"
  by (cases n) (auto simp: wf_node_def linked_def list_all_iff dest!: set_AList_update)

lemma wf_node_set_children_delete:
  "wf_node h n \<Longrightarrow> wf_node h (set_children n (AList.delete c (children n)))"
  by (cases n) (auto simp: wf_node_def list_all_iff AList.delete_eq)

lemma wf_node_set_is_value_node: "wf_node h n \<Longrightarrow> wf_node h (set_is_value_node n b)"
  by (cases n) (auto simp: wf_node_def)

lemma wf_heap_make_node: "wf_heap h \<Longrightarrow> wf_node h n \<Longrightarrow> wf_heap (snd (make_node h n))"
  by (auto simp: wf_heap_def list_all_iff intro: wf_node_mono)

lemma wf_heap_make_value: "wf_heap h \<Longrightarrow> wf_heap (snd (make_value h v))"
  by (auto simp: wf_heap_def list_all_iff intro: wf_node_mono)

lemma wf_heap_write_node: "wf_heap h \<Longrightarrow> wf_node h n \<Longrightarrow> wf_heap (write_node h a n)"
  by (auto simp: wf_heap_def list_all_iff intro: wf_node_mono dest!: subsetD[OF set_update_subset_insert])

subsection \<open>Walks stay in the old store\<close>

lemma Get_walk_bound:
  "wf_heap h \<Longrightarrow> a < length (nodes h) \<Longrightarrow> Get_walk h a ks = Some b \<Longrightarrow> b < length (nodes h)"
  by (induction ks arbitrary: a) (auto split: option.splits dest: wf_node_child[OF wf_heap_node_at])

lemma Get_walk_frame:
  "wf_heap h0 \<Longrightarrow> heap_extends h0 h \<Longrightarrow> a < length (nodes h0) \<Longrightarrow> Get_walk h a ks = Get_walk h0 a ks"
  by (induction ks arbitrary: a)
     (auto split: option.splits simp: heap_extends_node_at dest: wf_node_child[OF wf_heap_node_at])

lemma Get_walk_append:
  "Get_walk h a (ks @ ks') = (case Get_walk h a ks of None \<Rightarrow> None | Some b \<Rightarrow> Get_walk h b ks')"
  by (induction ks arbitrary: a) (auto split: option.splits)

subsection \<open>The descent of Put and Remove\<close>

lemma path_key_Nil [simp]: "path_key [] = []"
  by (simp add: path_key_def)

lemma path_key_Cons [simp]: "path_key ((p, c) # path) = path_key path @ [c]"
  by (simp add: path_key_def)

lemma find_node_snoc:
  "find_node h t (ks @ [c]) =
     (case find_node h t ks of None \<Rightarrow> None | Some a \<Rightarrow> map_of (children (node_at h a)) c)"
  by (auto simp: find_node_def Get_walk_append split: option.splits)

lemma orig_snoc:
  "orig h t (ks @ [c]) =
     (case map_of (children (orig h t ks)) c of None \<Rightarrow> TrieNode [] False | Some b \<Rightarrow> node_at h b)"
  by (auto simp: orig_def find_node_snoc split: option.splits)

lemma find_node_bound:
  "wf_heap h \<Longrightarrow> wf_trie h t \<Longrightarrow> find_node h t ks = Some a \<Longrightarrow> a < length (nodes h)"
  by (auto simp: find_node_def wf_trie_def split: option.splits dest: Get_walk_bound)

lemma wf_node_orig: "wf_heap h \<Longrightarrow> wf_trie h t \<Longrightarrow> wf_node h (orig h t ks)"
  by (auto simp: orig_def split: option.splits dest: find_node_bound intro: wf_heap_node_at)

lemma orig_child_old:
  "wf_heap h \<Longrightarrow> wf_trie h t \<Longrightarrow> map_of (children (orig h t ks)) c = Some b \<Longrightarrow> b < length (nodes h)"
  by (rule wf_node_child[OF wf_node_orig])

lemma link_inv_agree:
  "link_inv h0 t h path cur \<Longrightarrow> (\<forall>a<cur. node_at h' a = node_at h a) \<Longrightarrow> link_inv h0 t h' path cur"
  by (induction path arbitrary: cur) auto

lemma desc_inv_step:
  assumes wf0: "wf_heap h0" "wf_trie h0 t"
    and inv: "desc_inv h0 t h cur path"
    and n: "n = (case map_of (children (node_at h cur)) c of None \<Rightarrow> TrieNode [] False | Some child \<Rightarrow> node_at h child)"
  shows "desc_inv h0 t (children_assign (snd (make_node h n)) cur c (length (nodes h)))
           (length (nodes h)) ((cur, c) # path)"
proof -
  let ?o = "orig h0 t (path_key path)"
  let ?nn = "length (nodes h)"
  let ?h1 = "snd (make_node h n)"
  let ?h2 = "children_assign ?h1 cur c ?nn"
  from inv have wfh: "wf_heap h" and ext: "heap_extends h0 h" and vs: "vals h = vals h0"
    and lo: "length (nodes h0) \<le> cur"
    and hi: "cur < length (nodes h)" and cur: "node_at h cur = ?o" and li: "link_inv h0 t h path cur"
    by (simp_all add: desc_inv_def)
  have n_orig: "n = orig h0 t (path_key path @ [c])"
  proof (cases "map_of (children ?o) c")
    case None
    then show ?thesis by (simp add: n cur orig_snoc)
  next
    case (Some child)
    then have "child < length (nodes h0)" by (rule orig_child_old[OF wf0])
    then have "node_at h child = node_at h0 child" by (rule heap_extends_node_at[OF ext])
    with Some show ?thesis by (simp add: n cur orig_snoc)
  qed
  have wfn: "wf_node h n"
  proof -
    have "wf_node h0 n" unfolding n_orig by (rule wf_node_orig[OF wf0])
    then show ?thesis
      by (rule wf_node_mono) (rule heap_extends_length[OF ext] heap_extends_length_vals[OF ext])+
  qed
  have wf1: "wf_heap ?h1" by (rule wf_heap_make_node[OF wfh wfn])
  have cur1: "node_at ?h1 cur = ?o" using hi cur by (simp add: node_at_make_node)
  have "wf_node ?h1 (linked (node_at ?h1 cur) c ?nn)"
    by (rule wf_node_linked) (use hi in \<open>auto intro!: wf_heap_node_at[OF wf1]\<close>)
  then have wf2: "wf_heap ?h2" unfolding children_assign_alt by (rule wf_heap_write_node[OF wf1])
  have ext2: "heap_extends h0 ?h2" unfolding children_assign_alt
    by (rule heap_extends_write_node[OF heap_extends_make_node[OF ext] lo])
  have at2: "node_at ?h2 a = (if a = cur then linked ?o c ?nn else node_at ?h1 a)" for a
    using hi cur1 by (simp add: children_assign_alt node_at_write_node)
  have nn2: "node_at ?h2 ?nn = n" using hi by (simp add: at2 node_at_make_node)
  have below: "\<forall>a<cur. node_at ?h2 a = node_at h a"
    using hi by (simp add: at2 node_at_make_node)
  have li2: "link_inv h0 t ?h2 path cur" by (rule link_inv_agree[OF li below])
  have nn2': "node_at ?h2 ?nn = orig h0 t (path_key ((cur, c) # path))"
    using nn2 n_orig by simp
  have len2: "length (nodes ?h2) = Suc ?nn" by (simp add: children_assign_alt)
  have vs2: "vals ?h2 = vals h0" by (simp add: children_assign_alt vs)
  have li3: "link_inv h0 t ?h2 ((cur, c) # path) ?nn"
    using lo hi li2 at2[of cur] by simp
  show ?thesis
    unfolding desc_inv_def using wf2 ext2 lo hi nn2' li3 len2 vs2 by linarith
qed

lemma Put_descend_inv:
  assumes wf0: "wf_heap h0" "wf_trie h0 t"
  shows "desc_inv h0 t h cur path \<Longrightarrow> Put_descend h cur path key = (h2, cur2, path2) \<Longrightarrow>
         desc_inv h0 t h2 cur2 path2 \<and> path_key path2 = path_key path @ key \<and>
         bottom path2 cur2 = bottom path cur"
proof (induction key arbitrary: h cur path)
  case Nil
  then show ?case by simp
next
  case (Cons c key)
  let ?n = "case map_of (children (node_at h cur)) c of None \<Rightarrow> TrieNode [] False | Some child \<Rightarrow> node_at h child"
  let ?h2 = "children_assign (snd (make_node h ?n)) cur c (length (nodes h))"
  have step: "desc_inv h0 t ?h2 (length (nodes h)) ((cur, c) # path)"
    by (rule desc_inv_step[OF wf0 Cons.prems(1)]) simp
  have run: "Put_descend ?h2 (length (nodes h)) ((cur, c) # path) key = (h2, cur2, path2)"
    using Cons.prems(2) by (simp add: Clone_def make_node_def split: option.splits)
  from Cons.IH[OF step run] show ?case by simp
qed

subsection \<open>The unwinding of Put\<close>

lemma link_inv_parents:
  "link_inv h0 t h path cur \<Longrightarrow> (p, c) \<in> set path \<Longrightarrow> length (nodes h0) \<le> p \<and> p < cur"
proof (induction path arbitrary: cur)
  case Nil
  then show ?case by simp
next
  case (Cons x path)
  obtain q d where x: "x = (q, d)" by (cases x)
  show ?case
  proof (cases "(p, c) = x")
    case True
    then show ?thesis using Cons.prems(1) by (simp add: x)
  next
    case False
    with Cons.prems have "link_inv h0 t h path q" "(p, c) \<in> set path" "q < cur"
      by (auto simp: x)
    with Cons.IH[of q] show ?thesis by auto
  qed
qed

lemma write_node_idle: "node_at h a = n \<Longrightarrow> write_node h a n = h"
  by auto

lemma Put_descend_empty_eq:
  "children (node_at h cur) = [] \<Longrightarrow> cur < length (nodes h) \<Longrightarrow>
     Put_descend_empty h cur path key = Put_descend h cur path key"
proof (induction key arbitrary: h cur path)
  case Nil
  then show ?case by simp
next
  case (Cons c key)
  let ?h2 = "children_assign (snd (make_node h (TrieNode [] False))) cur c (length (nodes h))"
  have "children (node_at ?h2 (length (nodes h))) = []"
    using Cons.prems(2) by (simp add: children_assign_alt node_at_write_node node_at_make_node)
  moreover have "length (nodes h) < length (nodes ?h2)"
    by (simp add: children_assign_alt)
  ultimately have "Put_descend_empty ?h2 (length (nodes h)) ((cur, c) # path) key
      = Put_descend ?h2 (length (nodes h)) ((cur, c) # path) key"
    by (rule Cons.IH)
  then show ?case using Cons.prems(1) by (simp add: make_node_def)
qed

lemma Put_unwind_idle:
  "link_inv h0 t h path cur \<Longrightarrow> Put_unwind h cur path = (h, bottom path cur)"
  by (induction path arbitrary: cur) (auto simp: children_assign_alt write_node_idle)

lemma Put_unwind_spec:
  assumes li: "link_inv h0 t h path cur" and lt: "cur < cur'" and len: "cur' < length (nodes h)"
    and wf: "wf_heap h" and ext: "heap_extends h0 h"
  shows "\<exists>hf. Put_unwind h cur' path = (hf, bottom path cur') \<and> link_inv h0 t hf path cur' \<and>
           wf_heap hf \<and> heap_extends h0 hf \<and> vals hf = vals h \<and>
           length (nodes hf) = length (nodes h) \<and> node_at hf cur' = node_at h cur'"
proof (cases path)
  case Nil
  then show ?thesis using wf ext by simp
next
  case (Cons x rest)
  obtain p c where x: "x = (p, c)" by (cases x)
  let ?hf = "children_assign h p c cur'"
  from li have lo: "length (nodes h0) \<le> p" and pc: "p < cur"
    and at: "node_at h p = linked (orig h0 t (path_key rest)) c cur" and li': "link_inv h0 t h rest p"
    by (simp_all add: Cons x)
  have plen: "p < length (nodes h)" using pc lt len by simp
  have at': "node_at ?hf a = (if a = p then linked (orig h0 t (path_key rest)) c cur' else node_at h a)" for a
    using plen at by (simp add: children_assign_alt node_at_write_node)
  have li2: "link_inv h0 t ?hf rest p"
    by (rule link_inv_agree[OF li']) (simp add: at')
  have "Put_unwind h cur' path = Put_unwind ?hf p rest" by (simp add: Cons x)
  also have "\<dots> = (?hf, bottom rest p)" by (rule Put_unwind_idle[OF li2])
  finally have run: "Put_unwind h cur' path = (?hf, bottom path cur')" by (simp add: Cons x)
  have li3: "link_inv h0 t ?hf path cur'"
    using lo pc lt li2 at'[of p] by (simp add: Cons x)
  have "wf_node h (linked (node_at h p) c cur')"
    by (rule wf_node_linked[OF wf_heap_node_at[OF wf plen] len])
  then have wf': "wf_heap ?hf" unfolding children_assign_alt by (rule wf_heap_write_node[OF wf])
  have ext': "heap_extends h0 ?hf" unfolding children_assign_alt by (rule heap_extends_write_node[OF ext lo])
  have "node_at ?hf cur' = node_at h cur'" using pc lt by (simp add: at')
  with run li3 wf' ext' show ?thesis by (auto simp: children_assign_alt)
qed

lemma orig_Nil: "orig h t [] = (case root t of None \<Rightarrow> TrieNode [] False | Some r \<Rightarrow> node_at h r)"
  by (simp add: orig_def find_node_def split: option.splits)

lemma Put_unfold:
  "Put h t key T v =
     (let (cur0, h1) = make_node h (orig h t []);
          (h2, cur, path) = Put_descend h1 cur0 [] key;
          (p, h3) = make_value h2 v;
          (valueNode, h4) =
             make_node h3 (TrieNodeWithValue (children (node_at h3 cur)) True T p);
          (h5, r) = Put_unwind h4 valueNode path
      in (Trie (Some r), h5))"
proof (cases "root t")
  case None
  have "Put_descend_empty (snd (make_node h (TrieNode [] False))) (length (nodes h)) [] key
      = Put_descend (snd (make_node h (TrieNode [] False))) (length (nodes h)) [] key"
    by (rule Put_descend_empty_eq) (simp_all add: node_at_make_node)
  then show ?thesis using None by (simp add: Put_def orig_Nil make_node_def)
next
  case (Some r)
  then show ?thesis by (simp add: Put_def orig_Nil Clone_def)
qed

lemma Put_final:
  assumes wf0: "wf_heap h0" "wf_trie h0 t" and put: "Put h0 t key T v = (t', hf)"
  shows "\<exists>path vn. put_final h0 t key T v t' hf path vn"
proof -
  let ?h1 = "snd (make_node h0 (orig h0 t []))"
  let ?n0 = "length (nodes h0)"
  obtain h2 cur path where d: "Put_descend ?h1 ?n0 [] key = (h2, cur, path)"
    by (cases "Put_descend ?h1 ?n0 [] key") auto
  have "wf_node h0 (orig h0 t [])" by (rule wf_node_orig[OF wf0])
  then have "wf_heap ?h1" by (rule wf_heap_make_node[OF wf0(1)])
  then have "desc_inv h0 t ?h1 ?n0 []"
    by (simp add: desc_inv_def heap_extends_make_node node_at_make_node)
  from Put_descend_inv[OF wf0 this d]
  have inv2: "desc_inv h0 t h2 cur path" and pk: "path_key path = key" and bot: "bottom path cur = ?n0"
    by simp_all
  from inv2 have wf2: "wf_heap h2" and ext2: "heap_extends h0 h2" and vs2: "vals h2 = vals h0"
    and lo: "?n0 \<le> cur"
    and hi: "cur < length (nodes h2)" and cur: "node_at h2 cur = orig h0 t key"
    and li: "link_inv h0 t h2 path cur"
    by (simp_all add: desc_inv_def pk)
  let ?p = "length (vals h2)"
  let ?h3 = "snd (make_value h2 v)"
  let ?vn = "length (nodes h2)"
  let ?N = "TrieNodeWithValue (children (orig h0 t key)) True T ?p"
  let ?h4 = "snd (make_node ?h3 ?N)"
  have wf3: "wf_heap ?h3" by (rule wf_heap_make_value[OF wf2])
  have "wf_node h2 (orig h0 t key)" using wf_heap_node_at[OF wf2 hi] cur by simp
  then have "wf_node ?h3 ?N" by (auto simp: wf_node_def)
  then have wf4: "wf_heap ?h4" by (rule wf_heap_make_node[OF wf3])
  have ext4: "heap_extends h0 ?h4" by (intro heap_extends_make_node heap_extends_make_value ext2)
  have li4: "link_inv h0 t ?h4 path cur"
    by (rule link_inv_agree[OF li]) (use hi in \<open>simp add: node_at_make_node\<close>)
  have "\<exists>h5. Put_unwind ?h4 ?vn path = (h5, bottom path ?vn) \<and> link_inv h0 t h5 path ?vn \<and>
           wf_heap h5 \<and> heap_extends h0 h5 \<and> vals h5 = vals ?h4 \<and>
           length (nodes h5) = length (nodes ?h4) \<and> node_at h5 ?vn = node_at ?h4 ?vn"
    by (rule Put_unwind_spec[OF li4 hi _ wf4 ext4]) simp
  then obtain h5 where u: "Put_unwind ?h4 ?vn path = (h5, bottom path ?vn)"
    and li5: "link_inv h0 t h5 path ?vn" and wf5: "wf_heap h5" and ext5: "heap_extends h0 h5"
    and vals5: "vals h5 = vals h2 @ [v]" and len5: "length (nodes h5) = Suc ?vn"
    and at5: "node_at h5 ?vn = ?N"
    by (auto simp: node_at_make_node)
  have res: "t' = Trie (Some (bottom path ?vn))" "hf = h5"
    using put d u cur by (simp_all add: Put_unfold make_node_def make_value_def node_at_def)
  have "put_final h0 t key T v t' hf path ?vn"
    unfolding put_final_def using res wf5 ext5 li5 pk lo hi len5 at5 vals5 vs2 by simp
  then show ?thesis by blast
qed

subsection \<open>Walks in the trie returned by Put\<close>

lemma link_inv_walk:
  "link_inv h0 t h path cur \<Longrightarrow>
     Get_walk h (bottom path cur) (path_key path @ ks) = Get_walk h cur ks"
proof (induction path arbitrary: cur ks)
  case Nil
  then show ?case by simp
next
  case (Cons x path)
  obtain p c where x: "x = (p, c)" by (cases x)
  from Cons.prems have at: "node_at h p = linked (orig h0 t (path_key path)) c cur"
    and li: "link_inv h0 t h path p" by (simp_all add: x)
  have "Get_walk h (bottom path p) (path_key path @ c # ks) = Get_walk h p (c # ks)"
    by (rule Cons.IH[OF li])
  also have "\<dots> = Get_walk h cur ks" by (simp add: at map_of_children_linked)
  finally show ?case by (simp add: x)
qed

lemma find_node_step:
  "find_node h t (pre @ c # ks) =
     (case map_of (children (orig h t pre)) c of None \<Rightarrow> None | Some b \<Rightarrow> Get_walk h b ks)"
  by (auto simp: find_node_def orig_def Get_walk_append split: option.splits)

text \<open>Leaving a node through a child it shares with the original leads into the old store.\<close>

lemma walk_shared_child:
  assumes wf0: "wf_heap h0" "wf_trie h0 t" and ext: "heap_extends h0 h"
    and same: "map_of (children (node_at h a)) c = map_of (children (orig h0 t pre)) c"
  shows "Get_walk h a (c # ks) = find_node h0 t (pre @ c # ks)"
proof (cases "map_of (children (orig h0 t pre)) c")
  case None
  then show ?thesis using same by (simp add: find_node_step)
next
  case (Some b)
  then have "b < length (nodes h0)" by (rule orig_child_old[OF wf0])
  then have "Get_walk h b ks = Get_walk h0 b ks" by (rule Get_walk_frame[OF wf0(1) ext])
  then show ?thesis using same Some by (simp add: find_node_step)
qed

lemma link_inv_walk_off:
  assumes wf0: "wf_heap h0" "wf_trie h0 t" and ext: "heap_extends h0 h"
  shows "link_inv h0 t h path cur \<Longrightarrow> path_key path = pre @ c # suf \<Longrightarrow> c' \<noteq> c \<Longrightarrow>
     Get_walk h (bottom path cur) (pre @ c' # ks) = find_node h0 t (pre @ c' # ks)"
proof (induction path arbitrary: cur suf)
  case Nil
  then show ?case by simp
next
  case (Cons x path)
  obtain p c1 where x: "x = (p, c1)" by (cases x)
  from Cons.prems(1) have at: "node_at h p = linked (orig h0 t (path_key path)) c1 cur"
    and li: "link_inv h0 t h path p" by (simp_all add: x)
  from Cons.prems(2) have pk: "path_key path @ [c1] = pre @ c # suf" by (simp add: x)
  show ?case
  proof (cases suf rule: rev_cases)
    case Nil
    with pk have pre: "path_key path = pre" and c1: "c1 = c" by simp_all
    have "Get_walk h (bottom path p) (path_key path @ c' # ks) = Get_walk h p (c' # ks)"
      by (rule link_inv_walk[OF li])
    also have "\<dots> = find_node h0 t (pre @ c' # ks)"
      by (rule walk_shared_child[OF wf0 ext])
         (use Cons.prems(3) in \<open>simp add: at map_of_children_linked c1 pre\<close>)
    finally show ?thesis by (simp add: x pre)
  next
    case (snoc suf' y)
    with pk have "path_key path = pre @ c # suf'" by simp
    from Cons.IH[OF li this Cons.prems(3)] show ?thesis by (simp add: x)
  qed
qed

lemma link_inv_bottom_fresh:
  "link_inv h0 t h path cur \<Longrightarrow> length (nodes h0) \<le> cur \<Longrightarrow> length (nodes h0) \<le> bottom path cur"
  by (induction path arbitrary: cur) auto

lemma put_final_find_key:
  "put_final h0 t key T v t' hf path vn \<Longrightarrow> find_node hf t' key = Some vn"
  using link_inv_walk[of h0 t hf path vn "[]"] by (auto simp: put_final_def find_node_def)

lemma put_final_Get:
  assumes "put_final h0 t key T v t' hf path vn"
  shows "Get hf t' T key = Some (length (vals h0)) \<and> value_at hf (length (vals h0)) = v"
proof -
  from put_final_find_key[OF assms] have "Get_walk hf (bottom path vn) key = Some vn"
    using assms by (simp add: find_node_def put_final_def)
  then show ?thesis using assms by (simp add: Get_def put_final_def Get_value_def value_at_def)
qed

lemma put_final_off_path:
  assumes wf0: "wf_heap h0" "wf_trie h0 t" and fin: "put_final h0 t key T v t' hf path vn"
    and np: "\<not> prefix k key"
  shows "find_node hf t' k = find_node h0 t k"
proof -
  from fin have rt: "t' = Trie (Some (bottom path vn))" and ext: "heap_extends h0 hf"
    and li: "link_inv h0 t hf path vn" and pk: "path_key path = key"
    and vn: "node_at hf vn = TrieNodeWithValue (children (orig h0 t key)) True T (length (vals h0))"
    by (simp_all add: put_final_def)
  show ?thesis
  proof (cases "prefix key k")
    case True
    with np obtain c ks where k: "k = key @ c # ks"
      by (metis append_Nil2 neq_Nil_conv prefix_def prefix_order.order_refl)
    have "find_node hf t' k = Get_walk hf (bottom path vn) (path_key path @ c # ks)"
      by (simp add: find_node_def rt k pk)
    also have "\<dots> = Get_walk hf vn (c # ks)" by (rule link_inv_walk[OF li])
    also have "\<dots> = find_node h0 t (key @ c # ks)"
      by (rule walk_shared_child[OF wf0 ext]) (simp add: vn)
    finally show ?thesis by (simp add: k)
  next
    case False
    with np have "k \<parallel> key" by (simp add: parallel_def)
    then obtain pre c' ks c suf where neq: "c' \<noteq> c" and k: "k = pre @ c' # ks"
      and key: "key = pre @ c # suf"
      by (auto dest: parallel_decomp)
    have "Get_walk hf (bottom path vn) (pre @ c' # ks) = find_node h0 t (pre @ c' # ks)"
      by (rule link_inv_walk_off[OF wf0 ext li _ neq]) (simp add: pk key)
    then show ?thesis by (simp add: find_node_def rt k)
  qed
qed

lemma put_final_root_fresh:
  "put_final h0 t key T v t' hf path vn \<Longrightarrow> \<exists>r. root t' = Some r \<and> length (nodes h0) \<le> r"
  by (auto simp: put_final_def intro: link_inv_bottom_fresh)

subsection \<open>The loops of Remove\<close>

lemma children_erase_alt: "children_erase h a c = write_node h a (erased (node_at h a) c)"
  by (simp add: children_erase_def erased_def)

lemma erased_linked [simp]: "erased (linked n c a) c = erased n c"
  by (simp add: erased_def linked_def delete_update_same)

lemma map_of_children_erased:
  "map_of (children (erased n c)) c' = (if c' = c then None else map_of (children n) c')"
  by (simp add: erased_def delete_conv')

lemma is_value_node_erased [simp]: "is_value_node (erased n c) = is_value_node n"
  by (simp add: erased_def)

lemma Get_value_erased [simp]: "Get_value (erased n c) T = Get_value n T"
  by (simp add: erased_def)

lemma wf_node_erased: "wf_node h n \<Longrightarrow> wf_node h (erased n c)"
  unfolding erased_def by (rule wf_node_set_children_delete)

lemma Remove_descend_Some:
  "Remove_descend h cur path key = (h2, Some (cur2, path2)) \<Longrightarrow>
     Put_descend h cur path key = (h2, cur2, path2)"
  by (induction key arbitrary: h cur path) (auto split: option.splits prod.splits)

lemma Remove_descend_inv:
  assumes wf0: "wf_heap h0" "wf_trie h0 t"
  shows "desc_inv h0 t h cur path \<Longrightarrow> Remove_descend h cur path key = (h2, res) \<Longrightarrow>
         wf_heap h2 \<and> heap_extends h0 h2 \<and> vals h2 = vals h0 \<and>
         (res = None \<longrightarrow> find_node h0 t (path_key path @ key) = None)"
proof (induction key arbitrary: h cur path)
  case Nil
  then show ?case by (auto simp: desc_inv_def)
next
  case (Cons c key)
  from Cons.prems(1) have cur: "node_at h cur = orig h0 t (path_key path)"
    by (simp add: desc_inv_def)
  show ?case
  proof (cases "map_of (children (node_at h cur)) c")
    case None
    then show ?thesis using Cons.prems cur by (simp add: desc_inv_def find_node_step)
  next
    case (Some child)
    let ?h2 = "children_assign (snd (make_node h (node_at h child))) cur c (length (nodes h))"
    have step: "desc_inv h0 t ?h2 (length (nodes h)) ((cur, c) # path)"
      by (rule desc_inv_step[OF wf0 Cons.prems(1)]) (simp add: Some)
    have run: "Remove_descend ?h2 (length (nodes h)) ((cur, c) # path) key = (h2, res)"
      using Cons.prems(2) Some by (simp add: Clone_def make_node_def)
    from Cons.IH[OF step run] show ?thesis by simp
  qed
qed

lemma Remove_unwind_spec:
  assumes wf0: "wf_heap h0"
  shows "link_inv h0 t h path cur \<Longrightarrow> cur < length (nodes h) \<Longrightarrow> wf_heap h \<Longrightarrow> heap_extends h0 h \<Longrightarrow>
     pruned_inv h0 t (Remove_unwind h cur path) path cur \<and>
     wf_heap (Remove_unwind h cur path) \<and> heap_extends h0 (Remove_unwind h cur path) \<and>
     vals (Remove_unwind h cur path) = vals h \<and>
     length (nodes (Remove_unwind h cur path)) = length (nodes h) \<and>
     (\<forall>a. a \<notin> fst ` set path \<longrightarrow> node_at (Remove_unwind h cur path) a = node_at h a)"
proof (induction path arbitrary: h cur)
  case Nil
  then show ?case by simp
next
  case (Cons x path)
  obtain p c where x: "x = (p, c)" by (cases x)
  let ?o = "orig h0 t (path_key path)"
  let ?h1 = "if dead (node_at h cur) then children_erase h p c else h"
  let ?hf = "Remove_unwind ?h1 p path"
  from Cons.prems(1) have lo: "length (nodes h0) \<le> p" and pc: "p < cur"
    and at: "node_at h p = linked ?o c cur" and li: "link_inv h0 t h path p"
    by (simp_all add: x)
  have plen: "p < length (nodes h)" using pc Cons.prems(2) by simp
  have at1: "node_at ?h1 a = (if a = p then (if dead (node_at h cur) then erased ?o c else linked ?o c cur)
                              else node_at h a)" for a
    using plen at by (simp add: children_erase_alt node_at_write_node)
  have li1: "link_inv h0 t ?h1 path p" by (rule link_inv_agree[OF li]) (simp add: at1)
  have len1: "length (nodes ?h1) = length (nodes h)" by (simp add: children_erase_alt)
  have wf1: "wf_heap ?h1"
    using Cons.prems(3) wf_heap_write_node[OF Cons.prems(3) wf_node_erased[OF wf_heap_node_at[OF Cons.prems(3) plen]]]
    by (simp add: children_erase_alt)
  have ext1: "heap_extends h0 ?h1"
    using Cons.prems(4) heap_extends_write_node[OF Cons.prems(4) lo] by (simp add: children_erase_alt)
  have vals1: "vals ?h1 = vals h" by (simp add: children_erase_alt)
  from Cons.IH[OF li1 _ wf1 ext1] plen len1
  have pr: "pruned_inv h0 t ?hf path p" and wff: "wf_heap ?hf" and extf: "heap_extends h0 ?hf"
    and valsf: "vals ?hf = vals ?h1" and lenf: "length (nodes ?hf) = length (nodes ?h1)"
    and frame: "\<And>a. a \<notin> fst ` set path \<Longrightarrow> node_at ?hf a = node_at ?h1 a"
    by simp_all
  have notin: "a \<notin> fst ` set path" if "p \<le> a" for a
    using link_inv_parents[OF li] that by fastforce
  have fp: "node_at ?hf p = node_at ?h1 p" and fc: "node_at ?hf cur = node_at ?h1 cur"
    using pc by (simp_all add: frame notin)
  have hf: "Remove_unwind h cur (x # path) = ?hf" by (simp add: x dead_def)
  have "pruned_inv h0 t ?hf (x # path) cur"
    using lo pc pr fp fc by (simp add: x at1)
  moreover have "\<forall>a. a \<notin> fst ` set (x # path) \<longrightarrow> node_at ?hf a = node_at h a"
    using frame by (simp add: x at1)
  ultimately show ?case
    unfolding hf using wff extf valsf vals1 lenf len1 by simp
qed

subsection \<open>The two outcomes of Remove\<close>

lemma stored_orig: "stored h t key = is_value_node (orig h t key)"
  by (simp add: stored_def orig_def split: option.splits)

lemma stored_find: "stored h t key \<Longrightarrow> find_node h t key \<noteq> None"
  by (auto simp: stored_def split: option.splits)

lemma Remove_unfold:
  "root t = Some r \<Longrightarrow>
   Remove h t key =
     (case Remove_descend (snd (make_node h (node_at h r))) (length (nodes h)) [] key of
        (h2, None) \<Rightarrow> (t, h2)
      | (h2, Some (current, path)) \<Rightarrow>
          if \<not> is_value_node (node_at h2 current) then (t, h2)
          else
            (let h3 = write_node h2 current (set_is_value_node (node_at h2 current) False);
                 h4 = Remove_unwind h3 current path
             in if dead (node_at h4 (length (nodes h))) then (Trie None, h4)
                else (Trie (Some (length (nodes h))), h4)))"
  by (auto simp: Remove_def Clone_def make_node_def dead_def split: prod.splits option.splits)

lemma desc_inv_start:
  assumes wf0: "wf_heap h0" "wf_trie h0 t"
  shows "desc_inv h0 t (snd (make_node h0 (orig h0 t []))) (length (nodes h0)) []"
proof -
  have "wf_node h0 (orig h0 t [])" by (rule wf_node_orig[OF wf0])
  then have "wf_heap (snd (make_node h0 (orig h0 t [])))" by (rule wf_heap_make_node[OF wf0(1)])
  then show ?thesis by (simp add: desc_inv_def heap_extends_make_node node_at_make_node)
qed

lemma Remove_absent:
  assumes wf0: "wf_heap h0" "wf_trie h0 t" and ns: "\<not> stored h0 t key"
    and rm: "Remove h0 t key = (t', hf)"
  shows "t' = t \<and> wf_heap hf \<and> heap_extends h0 hf \<and> vals hf = vals h0"
proof (cases "root t")
  case None
  then show ?thesis using rm wf0 by (simp add: Remove_def)
next
  case (Some r)
  let ?h1 = "snd (make_node h0 (node_at h0 r))"
  let ?n0 = "length (nodes h0)"
  have o: "orig h0 t [] = node_at h0 r" by (simp add: orig_Nil Some)
  have start: "desc_inv h0 t ?h1 ?n0 []" using desc_inv_start[OF wf0] by (simp add: o)
  obtain h2 res where d: "Remove_descend ?h1 ?n0 [] key = (h2, res)"
    by (cases "Remove_descend ?h1 ?n0 [] key") auto
  from Remove_descend_inv[OF wf0 start d]
  have h2: "wf_heap h2" "heap_extends h0 h2" "vals h2 = vals h0" by simp_all
  show ?thesis
  proof (cases res)
    case None
    then show ?thesis using rm d h2 by (simp add: Remove_unfold[OF Some])
  next
    case (Some cp)
    obtain cur path where cp: "cp = (cur, path)" by (cases cp)
    have "Put_descend ?h1 ?n0 [] key = (h2, cur, path)"
      by (rule Remove_descend_Some) (simp add: d Some cp)
    from Put_descend_inv[OF wf0 start this] have "node_at h2 cur = orig h0 t key"
      by (simp add: desc_inv_def)
    with ns have "\<not> is_value_node (node_at h2 cur)" by (simp add: stored_orig)
    then show ?thesis using rm d h2 Some cp \<open>root t = Some r\<close> by (simp add: Remove_unfold)
  qed
qed

lemma Remove_present:
  assumes wf0: "wf_heap h0" "wf_trie h0 t" and st: "stored h0 t key"
    and rm: "Remove h0 t key = (t', hf)"
  shows "\<exists>path cur. remove_final h0 t key t' hf path cur"
proof -
  from st obtain r where r: "root t = Some r"
    by (cases "root t") (auto simp: stored_def find_node_def)
  let ?h1 = "snd (make_node h0 (node_at h0 r))"
  let ?n0 = "length (nodes h0)"
  have o: "orig h0 t [] = node_at h0 r" by (simp add: orig_Nil r)
  have start: "desc_inv h0 t ?h1 ?n0 []" using desc_inv_start[OF wf0] by (simp add: o)
  obtain h2 res where d: "Remove_descend ?h1 ?n0 [] key = (h2, res)"
    by (cases "Remove_descend ?h1 ?n0 [] key") auto
  from Remove_descend_inv[OF wf0 start d] stored_find[OF st]
  obtain cur path where res: "res = Some (cur, path)" by (cases res) auto
  have "Put_descend ?h1 ?n0 [] key = (h2, cur, path)"
    by (rule Remove_descend_Some) (simp add: d res)
  from Put_descend_inv[OF wf0 start this]
  have inv2: "desc_inv h0 t h2 cur path" and pk: "path_key path = key" and bot: "bottom path cur = ?n0"
    by simp_all
  from inv2 have wf2: "wf_heap h2" and ext2: "heap_extends h0 h2" and vs2: "vals h2 = vals h0"
    and lo: "?n0 \<le> cur" and hi: "cur < length (nodes h2)" and cur: "node_at h2 cur = orig h0 t key"
    and li: "link_inv h0 t h2 path cur"
    by (simp_all add: desc_inv_def pk)
  let ?h3 = "write_node h2 cur (set_is_value_node (node_at h2 cur) False)"
  let ?h4 = "Remove_unwind ?h3 cur path"
  have wf3: "wf_heap ?h3"
    by (rule wf_heap_write_node[OF wf2 wf_node_set_is_value_node[OF wf_heap_node_at[OF wf2 hi]]])
  have ext3: "heap_extends h0 ?h3" by (rule heap_extends_write_node[OF ext2 lo])
  have li3: "link_inv h0 t ?h3 path cur"
    by (rule link_inv_agree[OF li]) (simp add: node_at_write_node)
  have hi3: "cur < length (nodes ?h3)" using hi by simp
  from Remove_unwind_spec[OF wf0(1) li3 hi3 wf3 ext3]
  have pr: "pruned_inv h0 t ?h4 path cur" and wf4: "wf_heap ?h4" and ext4: "heap_extends h0 ?h4"
    and vs4: "vals ?h4 = vals ?h3" and len4: "length (nodes ?h4) = length (nodes ?h3)"
    and frame: "\<And>a. a \<notin> fst ` set path \<Longrightarrow> node_at ?h4 a = node_at ?h3 a"
    by simp_all
  have "cur \<notin> fst ` set path" using link_inv_parents[OF li] by fastforce
  then have "node_at ?h4 cur = node_at ?h3 cur" by (rule frame)
  then have cur4: "node_at ?h4 cur = set_is_value_node (orig h0 t key) False"
    using hi cur by (simp add: node_at_write_node)
  have iv: "is_value_node (node_at h2 cur)" using st cur by (simp add: stored_orig)
  have res': "hf = ?h4" "t' = (if dead (node_at ?h4 ?n0) then Trie None else Trie (Some ?n0))"
    using rm d res iv by (simp_all add: Remove_unfold[OF r] Let_def split: if_splits)
  have "remove_final h0 t key t' hf path cur"
    unfolding remove_final_def using res' wf4 ext4 vs4 vs2 pr pk lo hi len4 cur4 bot by simp
  then show ?thesis by blast
qed

subsection \<open>Lookups after a removal\<close>

lemma Get_orig: "Get h t T ks = Get_value (orig h t ks) T"
  by (simp add: Get_def orig_def find_node_def Get_value_def split: option.splits)

lemma Get_Get_from: "Get h t T ks = (case root t of None \<Rightarrow> None | Some r \<Rightarrow> Get_from h r T ks)"
  by (simp add: Get_def Get_from_def split: option.splits)

lemma Get_from_Nil [simp]: "Get_from h a T [] = Get_value (node_at h a) T"
  by (simp add: Get_from_def)

lemma Get_from_Cons:
  "Get_from h a T (c # ks) =
     (case map_of (children (node_at h a)) c of None \<Rightarrow> None | Some b \<Rightarrow> Get_from h b T ks)"
  by (simp add: Get_from_def split: option.splits)

lemma dead_Get_from: "dead (node_at h a) \<Longrightarrow> Get_from h a T ks = None"
  by (cases ks) (simp_all add: dead_def Get_from_Cons)

lemma Get_from_shared_child:
  assumes wf0: "wf_heap h0" "wf_trie h0 t" and ext: "heap_extends h0 h"
    and same: "map_of (children (node_at h a)) c = map_of (children (orig h0 t pre)) c"
  shows "Get_from h a T (c # ks) = Get h0 t T (pre @ c # ks)"
proof -
  have w: "Get_walk h a (c # ks) = find_node h0 t (pre @ c # ks)"
    by (rule walk_shared_child[OF wf0 ext same])
  show ?thesis
  proof (cases "find_node h0 t (pre @ c # ks)")
    case None
    then show ?thesis using w by (simp add: Get_from_def Get_orig orig_def)
  next
    case (Some b)
    then have "b < length (nodes h0)" by (rule find_node_bound[OF wf0])
    then have "node_at h b = node_at h0 b" by (rule heap_extends_node_at[OF ext])
    then show ?thesis using w Some by (simp add: Get_from_def Get_orig orig_def)
  qed
qed

lemma pruned_Get_from:
  assumes wf0: "wf_heap h0" "wf_trie h0 t" and ext: "heap_extends h0 h"
  shows "pruned_inv h0 t h path cur \<Longrightarrow>
     (\<And>T ks. Get_from h cur T ks = (if ks = rem then None else Get h0 t T (path_key path @ ks))) \<Longrightarrow>
     Get_from h (bottom path cur) T ks = (if ks = path_key path @ rem then None else Get h0 t T ks)"
proof (induction path arbitrary: cur rem T ks)
  case Nil
  then show ?case by simp
next
  case (Cons x path)
  obtain p c where x: "x = (p, c)" by (cases x)
  let ?o = "orig h0 t (path_key path)"
  from Cons.prems(1) have
    at: "node_at h p = (if dead (node_at h cur) then erased ?o c else linked ?o c cur)"
    and pr: "pruned_inv h0 t h path p"
    by (simp_all add: x)
  have Qcur: "Get_from h cur U ks' = (if ks' = rem then None else Get h0 t U (path_key path @ c # ks'))"
    for U ks'
    using Cons.prems(2)[of U ks'] by (simp add: x)
  have Qp: "Get_from h p U ks' = (if ks' = c # rem then None else Get h0 t U (path_key path @ ks'))"
    for U ks'
  proof (cases ks')
    case Nil
    then show ?thesis using at by (simp add: Get_orig)
  next
    case (Cons c' ks'')
    show ?thesis
    proof (cases "c' = c")
      case False
      have "Get_from h p U (c' # ks'') = Get h0 t U (path_key path @ c' # ks'')"
        by (rule Get_from_shared_child[OF wf0 ext])
           (use False at in \<open>simp add: map_of_children_erased map_of_children_linked\<close>)
      then show ?thesis using False Cons by simp
    next
      case True
      show ?thesis
      proof (cases "dead (node_at h cur)")
        case d: True
        then have "Get_from h cur U ks'' = None" by (rule dead_Get_from)
        with Qcur[of U ks''] have "ks'' \<noteq> rem \<longrightarrow> Get h0 t U (path_key path @ c # ks'') = None"
          by (auto split: if_splits)
        then show ?thesis using True Cons at d
          by (simp add: Get_from_Cons map_of_children_erased)
      next
        case d: False
        then show ?thesis using True Cons at Qcur[of U ks'']
          by (simp add: Get_from_Cons map_of_children_linked)
      qed
    qed
  qed
  from Cons.IH[OF pr Qp] show ?case by (simp add: x)
qed

lemma remove_final_Get:
  assumes wf0: "wf_heap h0" "wf_trie h0 t" and fin: "remove_final h0 t key t' hf path cur"
  shows "Get hf t' T ks = (if ks = key then None else Get h0 t T ks)"
proof -
  from fin have ext: "heap_extends h0 hf" and pr: "pruned_inv h0 t hf path cur"
    and pk: "path_key path = key"
    and cur: "node_at hf cur = set_is_value_node (orig h0 t key) False"
    and t': "t' = (if dead (node_at hf (bottom path cur)) then Trie None
                   else Trie (Some (bottom path cur)))"
    by (simp_all add: remove_final_def)
  have Qcur: "Get_from hf cur U ks' = (if ks' = [] then None else Get h0 t U (path_key path @ ks'))"
    for U ks'
  proof (cases ks')
    case Nil
    then show ?thesis by (simp add: cur)
  next
    case (Cons c ks'')
    have "Get_from hf cur U (c # ks'') = Get h0 t U (key @ c # ks'')"
      by (rule Get_from_shared_child[OF wf0 ext]) (simp add: cur)
    then show ?thesis using Cons by (simp add: pk)
  qed
  have Q: "Get_from hf (bottom path cur) T ks = (if ks = key then None else Get h0 t T ks)"
    using pruned_Get_from[OF wf0 ext pr Qcur] by (simp add: pk)
  show ?thesis
  proof (cases "dead (node_at hf (bottom path cur))")
    case True
    then have "Get_from hf (bottom path cur) T ks = None" by (rule dead_Get_from)
    with Q True show ?thesis by (simp add: t' Get_Get_from)
  next
    case False
    with Q show ?thesis by (simp add: t' Get_Get_from)
  qed
qed

subsection \<open>Which nodes Remove keeps\<close>

lemma pruned_inv_reach:
  "pruned_inv h0 t h path cur \<Longrightarrow> \<not> dead (node_at h cur) \<Longrightarrow>
     Get_walk h (bottom path cur) (path_key path) = Some cur \<and> \<not> dead (node_at h (bottom path cur))"
proof (induction path arbitrary: cur)
  case Nil
  then show ?case by simp
next
  case (Cons x path)
  obtain p c where x: "x = (p, c)" by (cases x)
  from Cons.prems have at: "node_at h p = linked (orig h0 t (path_key path)) c cur"
    and pr: "pruned_inv h0 t h path p" by (simp_all add: x)
  have "\<not> dead (node_at h p)" by (simp add: at dead_def)
  from Cons.IH[OF pr this] show ?case
    by (simp add: x Get_walk_append at map_of_children_linked)
qed

lemma pruned_inv_suffix:
  "pruned_inv h0 t h (upper @ (p, c) # rest) cur \<Longrightarrow>
     pruned_inv h0 t h rest p \<and> bottom (upper @ (p, c) # rest) cur = bottom rest p \<and>
     (\<exists>cur'. node_at h p = (if dead (node_at h cur') then erased (orig h0 t (path_key rest)) c
                            else linked (orig h0 t (path_key rest)) c cur'))"
proof (induction upper arbitrary: cur)
  case Nil
  then show ?case by auto
next
  case (Cons x upper)
  obtain q d where x: "x = (q, d)" by (cases x)
  from Cons.prems have "pruned_inv h0 t h (upper @ (p, c) # rest) q" by (simp add: x)
  from Cons.IH[OF this] show ?case by (simp add: x)
qed

lemma path_key_split:
  assumes "path_key path = q @ c # suf"
  shows "\<exists>upper p rest. path = upper @ (p, c) # rest \<and> path_key rest = q"
proof -
  from assms have "map snd path = rev suf @ c # rev q"
    by (simp add: path_key_def rev_swap)
  then obtain upper x rest where "path = upper @ x # rest" "snd x = c" "map snd rest = rev q"
    by (auto simp: map_eq_append_conv map_eq_Cons_conv)
  then have "path = upper @ (fst x, c) # rest \<and> path_key rest = q"
    by (auto simp: path_key_def)
  then show ?thesis by blast
qed

lemma find_node_child:
  "find_node h t (q @ [c]) = map_of (children (orig h t q)) c"
  using find_node_step[of h t q c "[]"] by (simp split: option.splits)

lemma dead_erased:
  assumes "dead (if b then erased n c else linked n c a)"
  shows "\<not> is_value_node n \<and> (\<forall>c'. map_of (children n) c' \<noteq> None \<longrightarrow> c' = c)"
proof -
  from assms have b: b and d: "dead (erased n c)"
    by (auto simp: dead_def split: if_splits)
  have "c' = c" if "map_of (children n) c' \<noteq> None" for c'
  proof (rule ccontr)
    assume "c' \<noteq> c"
    moreover have "map_of (children (erased n c)) c' = None" using d by (simp add: dead_def)
    ultimately show False using that by (simp add: map_of_children_erased)
  qed
  moreover have "\<not> is_value_node n" using d by (simp add: dead_def)
  ultimately show ?thesis by blast
qed

lemma remove_final_find:
  assumes fin: "remove_final h0 t key t' hf path cur"
  shows "find_node hf t' ks =
           (if dead (node_at hf (bottom path cur)) then None else Get_walk hf (bottom path cur) ks)"
  using fin by (simp add: remove_final_def find_node_def)

text \<open>A node on the path that is no longer reachable had no value and no other child.\<close>

lemma remove_final_pruned_only_dead:
  assumes fin: "remove_final h0 t key t' hf path cur"
    and pre: "prefix q key" and gone: "find_node hf t' q = None"
  shows "(q \<noteq> key \<longrightarrow> \<not> stored h0 t q) \<and>
         (\<forall>c. find_node h0 t (q @ [c]) \<noteq> None \<longrightarrow> prefix (q @ [c]) key)"
proof -
  from fin have pr: "pruned_inv h0 t hf path cur" and pk: "path_key path = key"
    and cur: "node_at hf cur = set_is_value_node (orig h0 t key) False"
    by (simp_all add: remove_final_def)
  show ?thesis
  proof (cases "q = key")
    case True
    have "dead (node_at hf cur)"
    proof (rule ccontr)
      assume "\<not> dead (node_at hf cur)"
      from pruned_inv_reach[OF pr this] gone show False
        by (simp add: remove_final_find[OF fin] pk True)
    qed
    then have "children (orig h0 t key) = []" by (simp add: cur dead_def)
    then show ?thesis by (simp add: True find_node_child)
  next
    case False
    with pre obtain c suf where key: "key = q @ c # suf"
      by (metis append_Nil2 neq_Nil_conv prefix_def)
    from path_key_split[of path q c suf] obtain upper p rest
      where path: "path = upper @ (p, c) # rest" and q: "path_key rest = q"
      by (auto simp: pk key)
    note suf = pruned_inv_suffix[OF pr[unfolded path], unfolded q]
    from suf have pr': "pruned_inv h0 t hf rest p" and bot: "bottom path cur = bottom rest p"
      by (simp_all add: path)
    from suf obtain cur'
      where at: "node_at hf p = (if dead (node_at hf cur') then erased (orig h0 t q) c
                                 else linked (orig h0 t q) c cur')"
      by blast
    have "dead (node_at hf p)"
    proof (rule ccontr)
      assume "\<not> dead (node_at hf p)"
      from pruned_inv_reach[OF pr' this] gone show False
        by (simp add: remove_final_find[OF fin] bot q)
    qed
    from dead_erased[OF this[unfolded at]]
    have "\<not> is_value_node (orig h0 t q)"
      and "\<And>c'. map_of (children (orig h0 t q)) c' \<noteq> None \<Longrightarrow> c' = c"
      by simp_all
    then show ?thesis by (auto simp: stored_orig find_node_child key)
  qed
qed

text \<open>A removed key that other keys extend keeps its node, now without a value.\<close>

lemma remove_final_prefix_kept:
  assumes fin: "remove_final h0 t key t' hf path cur"
    and ext: "find_node h0 t (key @ c # ks) \<noteq> None"
  shows "\<exists>a. find_node hf t' key = Some a \<and> \<not> is_value_node (node_at hf a) \<and>
             children (node_at hf a) \<noteq> []"
proof -
  from fin have pr: "pruned_inv h0 t hf path cur" and pk: "path_key path = key"
    and cur: "node_at hf cur = set_is_value_node (orig h0 t key) False"
    by (simp_all add: remove_final_def)
  from ext have "map_of (children (orig h0 t key)) c \<noteq> None"
    by (auto simp: find_node_step split: option.splits)
  then have ne: "children (node_at hf cur) \<noteq> []" by (auto simp: cur)
  then have "\<not> dead (node_at hf cur)" by (simp add: dead_def)
  from pruned_inv_reach[OF pr this] have "find_node hf t' key = Some cur"
    by (simp add: remove_final_find[OF fin] pk)
  then show ?thesis using ne by (simp add: cur)
qed

lemma remove_final_root_fresh:
  assumes "wf_trie h0 t" "remove_final h0 t key t' hf path cur"
  shows "root t' \<noteq> root t \<or> root t = None"
  using assms by (auto simp: remove_final_def wf_trie_def split: option.splits if_splits)

subsection \<open>Which nodes Remove erases\<close>

lemma pruned_inv_walk_cases:
  "pruned_inv h0 t h path cur \<Longrightarrow>
     Get_walk h (bottom path cur) (path_key path) = None \<or>
     Get_walk h (bottom path cur) (path_key path) = Some cur"
proof (induction path arbitrary: cur)
  case Nil
  then show ?case by simp
next
  case (Cons x path)
  obtain p c where x: "x = (p, c)" by (cases x)
  from Cons.prems have
    at: "node_at h p = (if dead (node_at h cur) then erased (orig h0 t (path_key path)) c
                        else linked (orig h0 t (path_key path)) c cur)"
    and pr: "pruned_inv h0 t h path p" by (simp_all add: x)
  from Cons.IH[OF pr] show ?case
    by (cases "dead (node_at h cur)")
       (auto simp: x Get_walk_append at map_of_children_erased map_of_children_linked)
qed

lemma pruned_inv_dead_gone:
  "pruned_inv h0 t h path cur \<Longrightarrow> dead (node_at h cur) \<Longrightarrow> path \<noteq> [] \<Longrightarrow>
     Get_walk h (bottom path cur) (path_key path) = None"
proof (cases path)
  case Nil
  assume "path \<noteq> []"
  with Nil show ?thesis by simp
next
  case (Cons x rest)
  assume pr: "pruned_inv h0 t h path cur" and d: "dead (node_at h cur)"
  obtain p c where x: "x = (p, c)" by (cases x)
  from pr d have at: "node_at h p = erased (orig h0 t (path_key rest)) c"
    and pr': "pruned_inv h0 t h rest p" by (simp_all add: Cons x)
  from pruned_inv_walk_cases[OF pr'] show ?thesis
    by (auto simp: Cons x Get_walk_append at map_of_children_erased)
qed

text \<open>The node on top of the stack is out of the new trie exactly when it ended up dead.\<close>

lemma pruned_gone_iff:
  assumes "pruned_inv h0 t h path cur"
  shows "((if dead (node_at h (bottom path cur)) then None
           else Get_walk h (bottom path cur) (path_key path)) = None)
         = dead (node_at h cur)"
proof (cases "dead (node_at h cur)")
  case False
  with pruned_inv_reach[OF assms] show ?thesis by simp
next
  case True
  show ?thesis
  proof (cases "path = []")
    case True
    with \<open>dead (node_at h cur)\<close> show ?thesis by simp
  next
    case False
    from pruned_inv_dead_gone[OF assms True False] True show ?thesis by simp
  qed
qed

lemma pruned_inv_suffix_top:
  "pruned_inv h0 t h (upper @ (p, c) # rest) cur \<Longrightarrow>
     \<exists>cur'. pruned_inv h0 t h ((p, c) # rest) cur' \<and>
            bottom (upper @ (p, c) # rest) cur = bottom rest p"
proof (induction upper arbitrary: cur)
  case Nil
  then show ?case by auto
next
  case (Cons x upper)
  obtain q d where x: "x = (q, d)" by (cases x)
  from Cons.prems have "pruned_inv h0 t h (upper @ (p, c) # rest) q" by (simp add: x)
  from Cons.IH[OF this] show ?case by (simp add: x)
qed

lemma delete_empty_iff:
  "AList.delete c al = [] \<longleftrightarrow> (\<forall>c'. c' \<noteq> c \<longrightarrow> map_of al c' = None)"
proof (induction al)
  case Nil
  then show ?case by simp
next
  case (Cons x al)
  obtain k v where x: "x = (k, v)" by (cases x)
  show ?case using Cons.IH by (auto simp: x)
qed

lemma dead_pruned_node_iff:
  "dead (if b then erased n c else linked n c a) \<longleftrightarrow>
     b \<and> \<not> is_value_node n \<and> (\<forall>c'. c' \<noteq> c \<longrightarrow> map_of (children n) c' = None)"
  by (auto simp: dead_def erased_def delete_empty_iff)

lemma children_empty_iff: "children n = [] \<longleftrightarrow> (\<forall>c. map_of (children n) c = None)"
proof
  assume "\<forall>c. map_of (children n) c = None"
  then have "map_of (children n) = Map.empty" by (simp add: fun_eq_iff)
  then show "children n = []" by simp
qed simp

lemma bare_key: "bare h t k k \<longleftrightarrow> children (orig h t k) = []"
  by (simp add: bare_def find_node_child children_empty_iff)

lemma bare_inner:
  "bare h t (q @ c # suf) q \<longleftrightarrow>
     \<not> is_value_node (orig h t q) \<and> (\<forall>c'. c' \<noteq> c \<longrightarrow> map_of (children (orig h t q)) c' = None)"
  by (auto simp: bare_def find_node_child stored_orig)

lemma remove_final_gone_key:
  assumes fin: "remove_final h0 t key t' hf path cur"
  shows "find_node hf t' key = None \<longleftrightarrow> bare h0 t key key"
proof -
  from fin have pr: "pruned_inv h0 t hf path cur" and pk: "path_key path = key"
    and cur: "node_at hf cur = set_is_value_node (orig h0 t key) False"
    by (simp_all add: remove_final_def)
  have "find_node hf t' key = None \<longleftrightarrow> dead (node_at hf cur)"
    unfolding remove_final_find[OF fin] by (rule pruned_gone_iff[OF pr, unfolded pk])
  then show ?thesis by (simp add: bare_key cur dead_def)
qed

lemma remove_final_gone_step:
  assumes fin: "remove_final h0 t key t' hf path cur" and key: "key = q @ c # suf"
  shows "find_node hf t' q = None \<longleftrightarrow> bare h0 t key q \<and> find_node hf t' (q @ [c]) = None"
proof -
  from fin have pr: "pruned_inv h0 t hf path cur" and pk: "path_key path = key"
    by (simp_all add: remove_final_def)
  from path_key_split[of path q c suf] obtain upper p rest
    where path: "path = upper @ (p, c) # rest" and q: "path_key rest = q"
    by (auto simp: pk key)
  from pruned_inv_suffix_top[OF pr[unfolded path]] obtain cur'
    where pr1: "pruned_inv h0 t hf ((p, c) # rest) cur'"
      and bot: "bottom path cur = bottom rest p"
    by (auto simp: path)
  from pr1 have pr2: "pruned_inv h0 t hf rest p"
    and at: "node_at hf p = (if dead (node_at hf cur') then erased (orig h0 t q) c
                             else linked (orig h0 t q) c cur')"
    by (simp_all add: q)
  have a: "find_node hf t' q = None \<longleftrightarrow> dead (node_at hf p)"
    unfolding remove_final_find[OF fin] bot by (rule pruned_gone_iff[OF pr2, unfolded q])
  have b: "find_node hf t' (q @ [c]) = None \<longleftrightarrow> dead (node_at hf cur')"
    unfolding remove_final_find[OF fin] bot
    by (rule pruned_gone_iff[OF pr1, unfolded bottom.simps path_key_Cons q])
  have "dead (node_at hf p) \<longleftrightarrow> dead (node_at hf cur') \<and> bare h0 t key q"
    unfolding at dead_pruned_node_iff key bare_inner by blast
  with a b show ?thesis by blast
qed

text \<open>
  The node of a prefix of the removed key is out of the new trie exactly when every node
  from it down to the key's is bare.
\<close>

lemma remove_final_gone_iff:
  assumes fin: "remove_final h0 t key t' hf path cur"
  shows "key = q @ suf \<Longrightarrow>
     find_node hf t' q = None \<longleftrightarrow> (\<forall>q'. prefix q q' \<and> prefix q' key \<longrightarrow> bare h0 t key q')"
proof (induction suf arbitrary: q)
  case Nil
  then have "\<And>q'. prefix q q' \<and> prefix q' key \<longleftrightarrow> q' = key" by auto
  then show ?case using remove_final_gone_key[OF fin] Nil by simp
next
  case (Cons c suf)
  have between: "prefix q q' \<and> prefix q' key \<longleftrightarrow> q' = q \<or> (prefix (q @ [c]) q' \<and> prefix q' key)"
    for q'
  proof
    assume a: "prefix q q' \<and> prefix q' key"
    show "q' = q \<or> (prefix (q @ [c]) q' \<and> prefix q' key)"
    proof (cases "q' = q")
      case False
      from a obtain r where r: "q' = q @ r" by (auto simp: prefix_def)
      with False obtain d r' where d: "r = d # r'" by (cases r) auto
      from a r d have "prefix (q @ d # r') (q @ c # suf)" by (simp add: Cons.prems)
      then have "d = c" by simp
      with r d a show ?thesis by simp
    qed simp
  next
    assume "q' = q \<or> (prefix (q @ [c]) q' \<and> prefix q' key)"
    then show "prefix q q' \<and> prefix q' key"
      by (auto simp: Cons.prems dest: append_prefixD)
  qed
  have "key = (q @ [c]) @ suf" using Cons.prems by simp
  from Cons.IH[OF this]
  have ih: "find_node hf t' (q @ [c]) = None \<longleftrightarrow>
              (\<forall>q'. prefix (q @ [c]) q' \<and> prefix q' key \<longrightarrow> bare h0 t key q')" .
  from remove_final_gone_step[OF fin Cons.prems] ih show ?case
    unfolding between by blast
qed

lemma remove_final_empty_iff:
  assumes fin: "remove_final h0 t key t' hf path cur"
  shows "t' = Trie None \<longleftrightarrow> (\<forall>q. prefix q key \<longrightarrow> bare h0 t key q)"
proof -
  have "root t' = None \<longleftrightarrow> find_node hf t' [] = None"
    by (simp add: find_node_def split: option.splits)
  also have "\<dots> \<longleftrightarrow> (\<forall>q'. prefix [] q' \<and> prefix q' key \<longrightarrow> bare h0 t key q')"
    by (rule remove_final_gone_iff[OF fin]) simp
  finally show ?thesis by (cases t') simp
qed

subsection \<open>Operations keep stores well formed\<close>

lemma unat_vec_size: "length xs < 2 ^ 64 \<Longrightarrow> unat (vec_size xs) = length xs"
  by (simp add: vec_size_def unat_of_nat)

lemma vec_size_eq_0: "length xs < 2 ^ 64 \<Longrightarrow> vec_size xs = 0 \<longleftrightarrow> xs = []"
  using unat_vec_size[of xs] by (auto simp: vec_size_def simp flip: unat_0_iff)

lemma vec_size_snoc: "vec_size (xs @ [x]) - 1 = vec_size xs"
  by (simp add: vec_size_def)

lemma wf_trie_mono: "wf_trie h t \<Longrightarrow> heap_extends h h' \<Longrightarrow> wf_trie h' t"
  by (auto simp: wf_trie_def split: option.splits dest: heap_extends_length)

lemma link_inv_bottom_le: "link_inv h0 t h path cur \<Longrightarrow> bottom path cur \<le> cur"
proof (induction path arbitrary: cur)
  case Nil
  then show ?case by simp
next
  case (Cons x path)
  obtain p c where x: "x = (p, c)" by (cases x)
  from Cons.prems have "link_inv h0 t h path p" "p < cur" by (simp_all add: x)
  with Cons.IH[of p] show ?case by (simp add: x)
qed

lemma pruned_inv_bottom_le: "pruned_inv h0 t h path cur \<Longrightarrow> bottom path cur \<le> cur"
proof (induction path arbitrary: cur)
  case Nil
  then show ?case by simp
next
  case (Cons x path)
  obtain p c where x: "x = (p, c)" by (cases x)
  from Cons.prems have "pruned_inv h0 t h path p" "p < cur" by (simp_all add: x)
  with Cons.IH[of p] show ?case by (simp add: x)
qed

lemma Put_ok:
  assumes wf0: "wf_heap h" "wf_trie h t" and put: "Put h t key T v = (t', h')"
  shows "wf_heap h' \<and> heap_extends h h' \<and> wf_trie h' t'"
proof -
  from Put_final[OF wf0 put] obtain path vn where fin: "put_final h t key T v t' h' path vn"
    by blast
  then have "bottom path vn \<le> vn" by (auto simp: put_final_def intro: link_inv_bottom_le)
  with fin show ?thesis by (auto simp: put_final_def wf_trie_def)
qed

lemma Remove_ok:
  assumes wf0: "wf_heap h" "wf_trie h t" and rm: "Remove h t key = (t', h')"
  shows "wf_heap h' \<and> heap_extends h h' \<and> wf_trie h' t'"
proof (cases "stored h t key")
  case False
  from Remove_absent[OF wf0 False rm] show ?thesis
    using wf_trie_mono[OF wf0(2)] by auto
next
  case True
  from Remove_present[OF wf0 True rm] obtain path cur
    where fin: "remove_final h t key t' h' path cur" by blast
  then have "bottom path cur \<le> cur" by (auto simp: remove_final_def intro: pruned_inv_bottom_le)
  with fin show ?thesis by (auto simp: remove_final_def wf_trie_def)
qed

lemma Get_frame:
  assumes "wf_heap h" "wf_trie h t" "heap_extends h h'"
  shows "Get h' t T key = Get h t T key"
proof (cases "root t")
  case None
  then show ?thesis by (simp add: Get_def)
next
  case (Some r)
  with assms(2) have r: "r < length (nodes h)" by (simp add: wf_trie_def)
  have w: "Get_walk h' r key = Get_walk h r key" by (rule Get_walk_frame[OF assms(1,3) r])
  show ?thesis
  proof (cases "Get_walk h r key")
    case None
    then show ?thesis using w Some by (simp add: Get_def)
  next
    case (Some a)
    then have "a < length (nodes h)" by (rule Get_walk_bound[OF assms(1) r])
    then have "node_at h' a = node_at h a" by (rule heap_extends_node_at[OF assms(3)])
    then show ?thesis using w Some \<open>root t = Some r\<close> by (simp add: Get_def)
  qed
qed

lemma Get_value_bound:
  "wf_node h n \<Longrightarrow> Get_value n T = Some p \<Longrightarrow> p < length (vals h)"
  by (cases n) (auto simp: Get_value_def wf_node_def split: if_splits)

lemma Get_bound:
  assumes "wf_heap h" "wf_trie h t" "Get h t T key = Some p"
  shows "p < length (vals h)"
proof -
  from assms(3) obtain r a where r: "root t = Some r" and a: "Get_walk h r key = Some a"
    and v: "Get_value (node_at h a) T = Some p"
    by (auto simp: Get_def split: option.splits)
  from r assms(2) have "r < length (nodes h)" by (simp add: wf_trie_def)
  then have "a < length (nodes h)" using a by (rule Get_walk_bound[OF assms(1)])
  then have "wf_node h (node_at h a)" by (rule wf_heap_node_at[OF assms(1)])
  then show ?thesis using v by (rule Get_value_bound)
qed

subsection \<open>Steps of the TrieStore\<close>

lemma wf_store_init: "wf_heap h \<Longrightarrow> wf_store TrieStore_init h"
  by (simp add: wf_store_def TrieStore_init_def wf_trie_def)

lemma wf_heap_init: "wf_heap heap_init"
  by (simp add: wf_heap_def heap_init_def)

lemma wf_store_last: "wf_store s h \<Longrightarrow> wf_trie h (last (snapshots s))"
  by (auto simp: wf_store_def list_all_iff)

lemma apply_op_ok:
  assumes ok: "wf_store s h" and step: "apply_op s h x = (s', h')"
  shows "wf_store s' h' \<and> heap_extends h h' \<and> prefix (snapshots s) (snapshots s')"
proof -
  have wfh: "wf_heap h" using ok by (simp add: wf_store_def)
  have wfl: "wf_trie h (last (snapshots s))" by (rule wf_store_last[OF ok])
  have old: "list_all (wf_trie h2) (snapshots s)" if "heap_extends h h2" for h2
    using ok that by (auto simp: wf_store_def list_all_iff intro: wf_trie_mono)
  show ?thesis
  proof (cases x)
    case (Op_Put key T v)
    obtain t2 h2 where put: "Put h (last (snapshots s)) key T v = (t2, h2)"
      by (cases "Put h (last (snapshots s)) key T v")
    from Put_ok[OF wfh wfl put] old[of h2] step ok show ?thesis
      by (auto simp: Op_Put TrieStore_Put_def put wf_store_def)
  next
    case (Op_Remove key)
    obtain t2 h2 where rm: "Remove h (last (snapshots s)) key = (t2, h2)"
      by (cases "Remove h (last (snapshots s)) key")
    from Remove_ok[OF wfh wfl rm] old[of h2] step ok show ?thesis
      by (auto simp: Op_Remove TrieStore_Remove_def rm wf_store_def split: if_splits)
  qed
qed

lemma apply_ops_ok:
  "wf_store s h \<Longrightarrow> apply_ops s h xs = (s', h') \<Longrightarrow>
     wf_store s' h' \<and> heap_extends h h' \<and> prefix (snapshots s) (snapshots s')"
proof (induction xs arbitrary: s h)
  case Nil
  then show ?case by simp
next
  case (Cons x xs)
  obtain s1 h1 where step: "apply_op s h x = (s1, h1)" by (cases "apply_op s h x")
  from apply_op_ok[OF Cons.prems(1) step]
  have ok1: "wf_store s1 h1" and e1: "heap_extends h h1" and p1: "prefix (snapshots s) (snapshots s1)"
    by simp_all
  from Cons.prems(2) step have "apply_ops s1 h1 xs = (s', h')" by simp
  from Cons.IH[OF ok1 this] e1 p1 show ?case
    by (auto intro: heap_extends_trans)
qed

lemma TrieStore_Get_pinned:
  assumes ok: "wf_store s h" and ext: "heap_extends h h'" and pre: "prefix (snapshots s) (snapshots s')"
    and len: "length (snapshots s') < 2 ^ 64" and n: "n < vec_size (snapshots s)"
  shows "TrieStore_Get s' h' T key n = TrieStore_Get s h T key n"
proof -
  have le: "length (snapshots s) \<le> length (snapshots s')" by (rule prefix_length_le[OF pre])
  with len have len0: "length (snapshots s) < 2 ^ 64" by simp
  from n have un: "unat n < length (snapshots s)"
    by (simp add: word_less_nat_alt unat_vec_size[OF len0])
  then have n': "n < vec_size (snapshots s')"
    using le by (simp add: word_less_nat_alt unat_vec_size[OF len])
  have nm: "n \<noteq> - 1" using n by (metis word_n1_ge leD)
  have same: "snapshots s' ! unat n = snapshots s ! unat n"
    using pre un by (auto simp: prefix_def nth_append)
  have "wf_trie h (snapshots s ! unat n)" using ok un by (simp add: wf_store_def list_all_length)
  then have "Get h' (snapshots s ! unat n) T key = Get h (snapshots s ! unat n) T key"
    using ok ext by (intro Get_frame) (simp_all add: wf_store_def)
  then show ?thesis using n n' nm same
    by (simp add: TrieStore_Get_def Let_def not_le[symmetric])
qed

text \<open>Every state a \<open>TrieStore\<close> reaches from its construction is well formed.\<close>

lemma reachable_wf_store:
  "wf_heap h0 \<Longrightarrow> apply_ops TrieStore_init h0 ops = (s, h) \<Longrightarrow> wf_store s h"
  using apply_ops_ok[OF wf_store_init] by blast

text \<open>
  An end-to-end run of the store, evaluated on the embedding: \<open>Put ''cat'' 1\<close>
  gives version 1, \<open>Put ''car'' 2\<close> version 2 with both keys readable, \<open>Remove ''cat''\<close>
  version 3 with \<open>''cat''\<close> absent and \<open>''car''\<close> still 2, and version 1 still holds 1
  under \<open>''cat''\<close>.
\<close>

lemma end_to_end_example:
  "(case TrieStore_Put TrieStore_init heap_init ''cat'' ''int'' 1 of (v1, s1, h1) \<Rightarrow>
    case TrieStore_Put s1 h1 ''car'' ''int'' 2 of (v2, s2, h2) \<Rightarrow>
    case TrieStore_Remove s2 h2 ''cat'' of (v3, s3, h3) \<Rightarrow>
      v1 = 1 \<and> v2 = 2 \<and> v3 = 3 \<and>
      map_option (\<lambda>g. value_at h2 (guard_value g)) (TrieStore_Get s2 h2 ''int'' ''cat'' (- 1)) = Some 1 \<and>
      map_option (\<lambda>g. value_at h2 (guard_value g)) (TrieStore_Get s2 h2 ''int'' ''car'' (- 1)) = Some 2 \<and>
      TrieStore_Get s3 h3 ''int'' ''cat'' (- 1) = None \<and>
      map_option (\<lambda>g. value_at h3 (guard_value g)) (TrieStore_Get s3 h3 ''int'' ''car'' (- 1)) = Some 2 \<and>
      map_option (\<lambda>g. value_at h3 (guard_value g)) (TrieStore_Get s3 h3 ''int'' ''cat'' 1) = Some 1)"
  by code_simp

subsection \<open>Identity of the returned trie\<close>

lemma find_node_frame:
  assumes "wf_heap h" "wf_trie h t" "heap_extends h h'"
  shows "find_node h' t ks = find_node h t ks"
  using assms by (auto simp: find_node_def wf_trie_def split: option.splits intro: Get_walk_frame)

lemma Trie_eq_iff: "Trie_eq t u \<longleftrightarrow> t = u"
  by (cases t; cases u) (simp add: Trie_eq_def)

lemma Put_not_identity:
  assumes wf0: "wf_heap h" "wf_trie h t"
  shows "\<exists>r. root (fst (Put h t key T v)) = Some r \<and> length (nodes h) \<le> r \<and> root t \<noteq> Some r"
proof -
  obtain t' h' where put: "Put h t key T v = (t', h')" by (cases "Put h t key T v")
  from Put_final[OF wf0 put] obtain path vn where "put_final h t key T v t' h' path vn" by blast
  from put_final_root_fresh[OF this] obtain r where "root t' = Some r" "length (nodes h) \<le> r"
    by blast
  then show ?thesis using wf0(2) by (auto simp: put wf_trie_def)
qed

lemma Remove_identity_iff:
  assumes wf0: "wf_heap h" "wf_trie h t"
  shows "fst (Remove h t key) = t \<longleftrightarrow> \<not> stored h t key"
proof (cases "stored h t key")
  case False
  obtain t' h' where rm: "Remove h t key = (t', h')" by (cases "Remove h t key")
  from Remove_absent[OF wf0 False rm] False show ?thesis by (simp add: rm)
next
  case True
  obtain t' h' where rm: "Remove h t key = (t', h')" by (cases "Remove h t key")
  from Remove_present[OF wf0 True rm] obtain path cur
    where fin: "remove_final h t key t' h' path cur" by blast
  from True have "root t \<noteq> None" by (auto simp: stored_def find_node_def split: option.splits)
  with remove_final_root_fresh[OF wf0(2) fin] have "t' \<noteq> t" by auto
  with True show ?thesis by (simp add: rm)
qed

lemma TrieStore_Get_Some:
  assumes "TrieStore_Get s h T key version = Some g"
  shows "guard_root g \<in> set (snapshots s) \<and> Get h (guard_root g) T key = Some (guard_value g)"
proof -
  let ?tv = "if version = - 1 then vec_size (snapshots s) - 1 else version"
  from assms have lt: "?tv < vec_size (snapshots s)"
    and g: "Get h (snapshots s ! unat ?tv) T key = Some (guard_value g)"
    and r: "guard_root g = snapshots s ! unat ?tv"
    by (auto simp: TrieStore_Get_def Let_def split: if_splits option.splits)
  from lt have "unat ?tv < unat (vec_size (snapshots s))" by (simp only: word_less_nat_alt)
  also have "\<dots> \<le> length (snapshots s)" by (simp add: vec_size_def unat_of_nat)
  finally have "snapshots s ! unat ?tv \<in> set (snapshots s)" by simp
  with g r show ?thesis by simp
qed


section \<open>The claims\<close>

text \<open>
  C1. Round trip: on a well-formed store, whatever the starting trie (empty or not) and
  whatever the key (the empty key included), \<open>Put\<close> followed by \<open>Get\<close> with the same
  type on the returned trie yields a non-null pointer whose payload is the value put.
\<close>

theorem Put_then_Get:
  assumes "wf_heap h" and "wf_trie h t"
  shows "case Put h t key T v of (t', h') \<Rightarrow> \<exists>p. Get h' t' T key = Some p \<and> value_at h' p = v"
proof -
  obtain t' h' where put: "Put h t key T v = (t', h')" by (cases "Put h t key T v")
  from Put_final[OF assms put] obtain path vn where "put_final h t key T v t' h' path vn"
    by blast
  from put_final_Get[OF this] show ?thesis by (auto simp: put)
qed

text \<open>C1 at a non-empty trie and the empty key.\<close>

theorem Put_then_Get_witness:
  "wf_heap ex_heap \<and> wf_trie ex_heap ex_trie \<and>
   (case Put ex_heap ex_trie [] ''int'' 7 of (t', h') \<Rightarrow>
      \<exists>p. Get h' t' ''int'' [] = Some p \<and> value_at h' p = 7)"
proof -
  have 1: "wf_heap ex_heap" by code_simp
  have 2: "wf_trie ex_heap ex_trie" by code_simp
  from Put_then_Get[OF 1 2, where key = "[]" and T = "''int''" and v = 7] 1 2
  show ?thesis by simp
qed

text \<open>
  C2 (amended). Structural sharing: \<open>Put\<close> leaves every old object unchanged, and every key
  that is not a prefix of \<open>k2\<close> (a node off the path of \<open>k2\<close>) leads to the same node
  address in the new trie as in the old one. In particular a stored, non-empty key \<open>k1\<close>
  with no common character prefix with \<open>k2\<close> keeps its node object. The root (the empty
  key) is on every path and is always cloned.
\<close>

theorem Put_shares_off_path:
  assumes "wf_heap h" and "wf_trie h t"
  shows "case Put h t k2 T v of (t', h') \<Rightarrow>
           heap_extends h h' \<and>
           (\<forall>k. \<not> prefix k k2 \<longrightarrow> find_node h' t' k = find_node h t k) \<and>
           (\<forall>k1. k1 \<noteq> [] \<and> (\<forall>p. prefix p k1 \<and> prefix p k2 \<longrightarrow> p = []) \<and> stored h t k1 \<longrightarrow>
              (\<exists>a. find_node h t k1 = Some a \<and> find_node h' t' k1 = Some a \<and>
                   node_at h' a = node_at h a))"
proof -
  obtain t' h' where put: "Put h t k2 T v = (t', h')" by (cases "Put h t k2 T v")
  from Put_final[OF assms put] obtain path vn where fin: "put_final h t k2 T v t' h' path vn"
    by blast
  then have ext: "heap_extends h h'" by (simp add: put_final_def)
  have off: "find_node h' t' k = find_node h t k" if "\<not> prefix k k2" for k
    by (rule put_final_off_path[OF assms fin that])
  have "\<exists>a. find_node h t k1 = Some a \<and> find_node h' t' k1 = Some a \<and> node_at h' a = node_at h a"
    if ne: "k1 \<noteq> []" and np: "\<forall>p. prefix p k1 \<and> prefix p k2 \<longrightarrow> p = []" and st: "stored h t k1"
    for k1
  proof -
    from ne np have "\<not> prefix k1 k2" by auto
    then have same: "find_node h' t' k1 = find_node h t k1" by (rule off)
    from stored_find[OF st] obtain a where a: "find_node h t k1 = Some a" by auto
    then have "a < length (nodes h)" by (rule find_node_bound[OF assms])
    then have "node_at h' a = node_at h a" by (rule heap_extends_node_at[OF ext])
    with a same show ?thesis by simp
  qed
  with ext off show ?thesis by (simp add: put)
qed

text \<open>C2 at the trie holding \<open>''a''\<close>, putting \<open>''b''\<close>.\<close>

theorem Put_shares_off_path_witness:
  "wf_heap ex_heap \<and> wf_trie ex_heap ex_trie \<and> stored ex_heap ex_trie ''a'' \<and>
   find_node (snd (Put ex_heap ex_trie ''b'' ''int'' 2)) (fst (Put ex_heap ex_trie ''b'' ''int'' 2)) ''a''
     = find_node ex_heap ex_trie ''a''"
proof -
  have 1: "wf_heap ex_heap" by code_simp
  have 2: "wf_trie ex_heap ex_trie" by code_simp
  have 3: "stored ex_heap ex_trie ''a''" by code_simp
  have 4: "\<not> prefix ''a'' ''b''" by simp
  from Put_shares_off_path[OF 1 2, where ?k2.0 = "''b''" and T = "''int''" and v = 2] 1 2 3 4
  show ?thesis by (auto split: prod.splits)
qed

text \<open>
  C2 as stated fails for the empty key: in the trie holding only the empty key (the value
  sits on the root), putting \<open>''b''\<close>, which shares no character with the empty key, returns
  a trie whose root is another object than the old root.
\<close>

theorem Put_clones_root_counterexample:
  "stored ex_root_heap ex_root_trie [] \<and>
   find_node (snd (Put ex_root_heap ex_root_trie ''b'' ''int'' 2))
             (fst (Put ex_root_heap ex_root_trie ''b'' ''int'' 2)) []
     \<noteq> find_node ex_root_heap ex_root_trie []"
  by code_simp

text \<open>
  The example of C3, run from the empty store: \<open>Put ''a'' 1\<close>, \<open>Put ''ab'' 2\<close>,
  \<open>Remove ''ab''\<close>; the node of \<open>''ab''\<close> is gone from the new trie, not only its value.
  Removing the only key of a trie gives the empty trie.
\<close>

lemma example_pruning:
  "Get ex_heap3 ex_trie3 ''int'' ''a'' = Some 0 \<and> value_at ex_heap3 0 = 1 \<and>
   Get ex_heap3 ex_trie3 ''int'' ''ab'' = None \<and>
   find_node ex_heap3 ex_trie3 ''ab'' = None \<and>
   fst (Remove ex_heap ex_trie ''a'') = Trie None"
  by code_simp

text \<open>
  C3. Removing a stored key \<open>k\<close> changes no payload and leaves the result of \<open>Get\<close>
  for every other key and every type as it was; \<open>k\<close> itself is absent afterwards. When
  \<open>k\<close> is a strict prefix of another stored key, its node stays in the new trie, without a
  value and still with children. Pruning is exact: the node of a prefix \<open>q\<close> of \<open>k\<close> is
  erased from the new trie if and only if every node from \<open>q\<close> down to \<open>k\<close> is bare, that
  is, left without value and without children once the nodes below it are erased; so an
  erased node held no value of its own and had no child off the path, and a node left
  with no children and no value is erased. The result is the empty trie exactly when this
  holds from the root. In the example, \<open>Get ''a''\<close> still yields the payload 1,
  \<open>Get ''ab''\<close> is absent and the node of \<open>''ab''\<close> is erased.
\<close>

theorem Remove_preserves_and_prunes:
  "(wf_heap h \<and> wf_trie h t \<and> stored h t k \<longrightarrow>
      (case Remove h t k of (t', h') \<Rightarrow>
         vals h' = vals h \<and>
         (\<forall>T k'. k' \<noteq> k \<longrightarrow> Get h' t' T k' = Get h t T k') \<and>
         (\<forall>T. Get h' t' T k = None) \<and>
         (\<forall>k2. strict_prefix k k2 \<and> stored h t k2 \<longrightarrow>
            (\<exists>a. find_node h' t' k = Some a \<and> \<not> is_value_node (node_at h' a) \<and>
                 children (node_at h' a) \<noteq> [])) \<and>
         (\<forall>q. prefix q k \<and> find_node h' t' q = None \<longrightarrow>
            (q \<noteq> k \<longrightarrow> \<not> stored h t q) \<and>
            (\<forall>c. find_node h t (q @ [c]) \<noteq> None \<longrightarrow> prefix (q @ [c]) k)) \<and>
         (\<forall>q. prefix q k \<longrightarrow>
            (find_node h' t' q = None \<longleftrightarrow>
               (\<forall>q'. prefix q q' \<and> prefix q' k \<longrightarrow> bare h t k q'))) \<and>
         (t' = Trie None \<longleftrightarrow> (\<forall>q. prefix q k \<longrightarrow> bare h t k q)))) \<and>
   (Get ex_heap3 ex_trie3 ''int'' ''a'' = Some 0 \<and> value_at ex_heap3 0 = 1 \<and>
    Get ex_heap3 ex_trie3 ''int'' ''ab'' = None \<and>
    find_node ex_heap3 ex_trie3 ''ab'' = None \<and>
    fst (Remove ex_heap ex_trie ''a'') = Trie None)"
proof (intro conjI impI)
  assume a: "wf_heap h \<and> wf_trie h t \<and> stored h t k"
  then have wf0: "wf_heap h" "wf_trie h t" and st: "stored h t k" by simp_all
  obtain t' h' where rm: "Remove h t k = (t', h')" by (cases "Remove h t k")
  from Remove_present[OF wf0 st rm] obtain path cur
    where fin: "remove_final h t k t' h' path cur" by blast
  have 1: "vals h' = vals h" using fin by (simp add: remove_final_def)
  have 2: "Get h' t' T k' = Get h t T k'" if "k' \<noteq> k" for T k'
    using remove_final_Get[OF wf0 fin, of T k'] that by simp
  have 3: "Get h' t' T k = None" for T
    using remove_final_Get[OF wf0 fin, of T k] by simp
  have 4: "\<exists>a. find_node h' t' k = Some a \<and> \<not> is_value_node (node_at h' a) \<and>
                children (node_at h' a) \<noteq> []"
    if "strict_prefix k k2 \<and> stored h t k2" for k2
  proof -
    from that obtain c ks where k2: "k2 = k @ c # ks"
      by (auto elim: strict_prefixE')
    from that have "find_node h t (k @ c # ks) \<noteq> None" using stored_find[of h t k2] by (simp add: k2)
    then show ?thesis by (rule remove_final_prefix_kept[OF fin])
  qed
  have 5: "(q \<noteq> k \<longrightarrow> \<not> stored h t q) \<and>
           (\<forall>c. find_node h t (q @ [c]) \<noteq> None \<longrightarrow> prefix (q @ [c]) k)"
    if "prefix q k \<and> find_node h' t' q = None" for q
  proof -
    from that have "prefix q k" and "find_node h' t' q = None" by simp_all
    then show ?thesis by (rule remove_final_pruned_only_dead[OF fin])
  qed
  have 6: "find_node h' t' q = None \<longleftrightarrow> (\<forall>q'. prefix q q' \<and> prefix q' k \<longrightarrow> bare h t k q')"
    if "prefix q k" for q
  proof -
    from that obtain suf where "k = q @ suf" by (auto simp: prefix_def)
    then show ?thesis by (rule remove_final_gone_iff[OF fin])
  qed
  have 7: "t' = Trie None \<longleftrightarrow> (\<forall>q. prefix q k \<longrightarrow> bare h t k q)"
    by (rule remove_final_empty_iff[OF fin])
  show "case Remove h t k of (t', h') \<Rightarrow>
         vals h' = vals h \<and>
         (\<forall>T k'. k' \<noteq> k \<longrightarrow> Get h' t' T k' = Get h t T k') \<and>
         (\<forall>T. Get h' t' T k = None) \<and>
         (\<forall>k2. strict_prefix k k2 \<and> stored h t k2 \<longrightarrow>
            (\<exists>a. find_node h' t' k = Some a \<and> \<not> is_value_node (node_at h' a) \<and>
                 children (node_at h' a) \<noteq> [])) \<and>
         (\<forall>q. prefix q k \<and> find_node h' t' q = None \<longrightarrow>
            (q \<noteq> k \<longrightarrow> \<not> stored h t q) \<and>
            (\<forall>c. find_node h t (q @ [c]) \<noteq> None \<longrightarrow> prefix (q @ [c]) k)) \<and>
         (\<forall>q. prefix q k \<longrightarrow>
            (find_node h' t' q = None \<longleftrightarrow>
               (\<forall>q'. prefix q q' \<and> prefix q' k \<longrightarrow> bare h t k q'))) \<and>
         (t' = Trie None \<longleftrightarrow> (\<forall>q. prefix q k \<longrightarrow> bare h t k q))"
    unfolding rm prod.case
    apply (intro conjI allI impI)
    subgoal by (rule 1)
    subgoal by (rule 2)
    subgoal by (rule 3)
    subgoal by (rule 4)
    subgoal using 5 by blast
    subgoal using 5 by blast
    subgoal by (rule 6)
    subgoal by (rule 7)
    done
qed (simp_all add: example_pruning)

text \<open>
  C3 at the trie holding \<open>''a''\<close> and \<open>''ab''\<close>, removing the strict prefix \<open>''a''\<close>.
\<close>

theorem Remove_preserves_and_prunes_witness:
  "wf_heap ex_heap2 \<and> wf_trie ex_heap2 ex_trie2 \<and> stored ex_heap2 ex_trie2 ''a'' \<and>
   Get (snd (Remove ex_heap2 ex_trie2 ''a'')) (fst (Remove ex_heap2 ex_trie2 ''a'')) ''int'' ''ab''
     = Get ex_heap2 ex_trie2 ''int'' ''ab'' \<and>
   Get (snd (Remove ex_heap2 ex_trie2 ''a'')) (fst (Remove ex_heap2 ex_trie2 ''a'')) ''int'' ''a''
     = None"
proof -
  have 1: "wf_heap ex_heap2" by code_simp
  have 2: "wf_trie ex_heap2 ex_trie2" by code_simp
  have 3: "stored ex_heap2 ex_trie2 ''a''" by code_simp
  have 4: "''ab'' \<noteq> ''a''" by simp
  from Remove_preserves_and_prunes[where h = ex_heap2 and t = ex_trie2 and k = "''a''"] 1 2 3 4
  show ?thesis by (auto split: prod.splits)
qed

text \<open>
  C4. A key is not stored exactly when the trie is empty, or a character is missing along
  the path, or the landing node is not a value node; then \<open>Remove\<close> returns the very trie
  it was given (the same root pointer, \<open>Trie_eq\<close>). This is the only case in which a
  mutator returns its input: removing a stored key, and every \<open>Put\<close>, return another root.
\<close>

theorem Remove_absent_is_identity:
  assumes "wf_heap h" and "wf_trie h t"
  shows "(\<not> stored h t k \<longleftrightarrow>
            (root t = None \<or> find_node h t k = None \<or>
             (\<exists>a. find_node h t k = Some a \<and> \<not> is_value_node (node_at h a)))) \<and>
         (\<not> stored h t k \<longrightarrow> fst (Remove h t k) = t \<and> Trie_eq (fst (Remove h t k)) t) \<and>
         (stored h t k \<longrightarrow> \<not> Trie_eq (fst (Remove h t k)) t) \<and>
         (\<forall>key T v. \<not> Trie_eq (fst (Put h t key T v)) t)"
proof -
  have a: "\<not> stored h t k \<longleftrightarrow>
            (root t = None \<or> find_node h t k = None \<or>
             (\<exists>a. find_node h t k = Some a \<and> \<not> is_value_node (node_at h a)))"
    by (auto simp: stored_def find_node_def split: option.splits)
  have b: "fst (Remove h t k) = t \<longleftrightarrow> \<not> stored h t k" by (rule Remove_identity_iff[OF assms])
  have c: "\<not> Trie_eq (fst (Put h t key T v)) t" for key T v
    using Put_not_identity[OF assms, of key T v] by (auto simp: Trie_eq_iff)
  from a b c show ?thesis unfolding Trie_eq_iff by blast
qed

text \<open>
  C4 at the trie holding \<open>''a''\<close>: removing the absent \<open>''b''\<close>, and the stored \<open>''a''\<close>.
\<close>

theorem Remove_absent_is_identity_witness:
  "wf_heap ex_heap \<and> wf_trie ex_heap ex_trie \<and> \<not> stored ex_heap ex_trie ''b'' \<and>
   fst (Remove ex_heap ex_trie ''b'') = ex_trie \<and>
   stored ex_heap ex_trie ''a'' \<and> \<not> Trie_eq (fst (Remove ex_heap ex_trie ''a'')) ex_trie"
proof -
  have 1: "wf_heap ex_heap" by code_simp
  have 2: "wf_trie ex_heap ex_trie" by code_simp
  have 3: "\<not> stored ex_heap ex_trie ''b''" by code_simp
  have 4: "stored ex_heap ex_trie ''a''" by code_simp
  from Remove_absent_is_identity[OF 1 2, of "''b''"] Remove_absent_is_identity[OF 1 2, of "''a''"]
    1 2 3 4
  show ?thesis by simp
qed

text \<open>
  C5. On a store with at least one snapshot (every store is built with one and never
  shrinks), \<open>TrieStore_Put\<close> returns the prior \<open>get_version\<close> plus one, as words and, while
  the vector's size fits \<^verbatim>\<open>size_t\<close>, as numbers. \<open>TrieStore_Remove\<close> of a key that the
  newest snapshot does not store appends nothing and returns the prior \<open>get_version\<close>.
\<close>

theorem TrieStore_version_numbers:
  assumes "wf_store s h"
  shows "(case TrieStore_Put s h key T v of (ver, s', h') \<Rightarrow>
            ver = get_version s + 1 \<and>
            (length (snapshots s) < 2 ^ 64 \<longrightarrow> unat ver = unat (get_version s) + 1)) \<and>
         (\<not> stored h (last (snapshots s)) key' \<longrightarrow>
            (case TrieStore_Remove s h key' of (ver, s', h') \<Rightarrow> ver = get_version s \<and> s' = s))"
proof -
  from assms have ne: "snapshots s \<noteq> []" and wfh: "wf_heap h"
    by (simp_all add: wf_store_def)
  have wfl: "wf_trie h (last (snapshots s))" by (rule wf_store_last[OF assms])
  have gv: "get_version s = vec_size (snapshots s) - 1" using ne by (simp add: get_version_def)
  obtain t2 h2 where put: "Put h (last (snapshots s)) key T v = (t2, h2)"
    by (cases "Put h (last (snapshots s)) key T v")
  have ver: "fst (TrieStore_Put s h key T v) = vec_size (snapshots s)"
    by (simp add: TrieStore_Put_def put vec_size_snoc)
  have a: "fst (TrieStore_Put s h key T v) = get_version s + 1" by (simp add: ver gv)
  have b: "unat (fst (TrieStore_Put s h key T v)) = unat (get_version s) + 1"
    if len: "length (snapshots s) < 2 ^ 64"
  proof -
    have "vec_size (snapshots s) \<noteq> 0" using ne by (simp add: vec_size_eq_0[OF len])
    then have "unat (get_version s) = length (snapshots s) - 1"
      by (simp add: gv unat_minus_one unat_vec_size[OF len])
    then show ?thesis using ne by (simp add: ver unat_vec_size[OF len] Suc_leI)
  qed
  have c: "case TrieStore_Remove s h key' of (ver, s', h') \<Rightarrow> ver = get_version s \<and> s' = s"
    if ns: "\<not> stored h (last (snapshots s)) key'"
  proof -
    obtain t3 h3 where rm: "Remove h (last (snapshots s)) key' = (t3, h3)"
      by (cases "Remove h (last (snapshots s)) key'")
    from Remove_absent[OF wfh wfl ns rm] have "t3 = last (snapshots s)" by simp
    then show ?thesis by (simp add: TrieStore_Remove_def rm Trie_eq_iff gv)
  qed
  from a b c show ?thesis by (cases "TrieStore_Put s h key T v") auto
qed

text \<open>
  C5 at the store after one \<open>Put ''a''\<close>: putting \<open>''c''\<close>, removing the absent \<open>''b''\<close>.
\<close>

theorem TrieStore_version_numbers_witness:
  "wf_store ex_store ex_heap \<and> \<not> stored ex_heap (last (snapshots ex_store)) ''b'' \<and>
   fst (TrieStore_Put ex_store ex_heap ''c'' ''int'' 3) = get_version ex_store + 1 \<and>
   fst (TrieStore_Remove ex_store ex_heap ''b'') = get_version ex_store \<and>
   fst (snd (TrieStore_Remove ex_store ex_heap ''b'')) = ex_store"
proof -
  have 1: "wf_store ex_store ex_heap" by code_simp
  have 2: "\<not> stored ex_heap (last (snapshots ex_store)) ''b''" by code_simp
  from TrieStore_version_numbers[OF 1, where key = "''c''" and T = "''int''" and v = 3
      and key' = "''b''"] 1 2
  show ?thesis by (auto split: prod.splits)
qed

text \<open>
  C6. Any sequence of \<open>Put\<close> and \<open>Remove\<close> calls only extends the snapshot vector, and
  \<open>TrieStore_Get\<close> at a version number that was in the store before the calls returns the
  same guard afterwards, with the same payload behind its value pointer.
\<close>

theorem snapshots_append_only:
  assumes "wf_store s h" and "apply_ops s h ops = (s', h')" and "length (snapshots s') < 2 ^ 64"
  shows "prefix (snapshots s) (snapshots s') \<and>
         (\<forall>n T key. unat n < length (snapshots s) \<longrightarrow>
            TrieStore_Get s' h' T key n = TrieStore_Get s h T key n \<and>
            (\<forall>g. TrieStore_Get s h T key n = Some g \<longrightarrow>
               value_at h' (guard_value g) = value_at h (guard_value g)))"
proof -
  from apply_ops_ok[OF assms(1,2)]
  have ext: "heap_extends h h'" and pre: "prefix (snapshots s) (snapshots s')" by simp_all
  have len0: "length (snapshots s) < 2 ^ 64"
    using prefix_length_le[OF pre] assms(3) by simp
  have wfh: "wf_heap h" using assms(1) by (simp add: wf_store_def)
  have "TrieStore_Get s' h' T key n = TrieStore_Get s h T key n \<and>
        (\<forall>g. TrieStore_Get s h T key n = Some g \<longrightarrow>
           value_at h' (guard_value g) = value_at h (guard_value g))"
    if un: "unat n < length (snapshots s)" for n T key
  proof -
    from un have "n < vec_size (snapshots s)"
      by (simp add: word_less_nat_alt unat_vec_size[OF len0])
    then have same: "TrieStore_Get s' h' T key n = TrieStore_Get s h T key n"
      by (rule TrieStore_Get_pinned[OF assms(1) ext pre assms(3)])
    have "value_at h' (guard_value g) = value_at h (guard_value g)"
      if g: "TrieStore_Get s h T key n = Some g" for g
    proof -
      from TrieStore_Get_Some[OF g] have "guard_root g \<in> set (snapshots s)"
        and get: "Get h (guard_root g) T key = Some (guard_value g)" by simp_all
      then have "wf_trie h (guard_root g)" using assms(1) by (simp add: wf_store_def list_all_iff)
      from Get_bound[OF wfh this get] show ?thesis by (rule heap_extends_value_at[OF ext])
    qed
    with same show ?thesis by blast
  qed
  with pre show ?thesis by blast
qed

text \<open>
  C6 at the store after one \<open>Put ''a''\<close>, version 1, across three further calls.
\<close>

theorem snapshots_append_only_witness:
  "wf_store ex_store ex_heap \<and>
   length (snapshots (fst (apply_ops ex_store ex_heap
      [Op_Put ''ab'' ''int'' 2, Op_Remove ''a'', Op_Remove ''zz'']))) < 2 ^ 64 \<and>
   unat (1::size_t) < length (snapshots ex_store) \<and>
   TrieStore_Get (fst (apply_ops ex_store ex_heap
        [Op_Put ''ab'' ''int'' 2, Op_Remove ''a'', Op_Remove ''zz'']))
      (snd (apply_ops ex_store ex_heap
        [Op_Put ''ab'' ''int'' 2, Op_Remove ''a'', Op_Remove ''zz''])) ''int'' ''a'' 1
     = TrieStore_Get ex_store ex_heap ''int'' ''a'' 1"
proof -
  let ?ops = "[Op_Put ''ab'' ''int'' 2, Op_Remove ''a'', Op_Remove ''zz'']"
  let ?r = "apply_ops ex_store ex_heap ?ops"
  have 1: "wf_store ex_store ex_heap" by code_simp
  have 2: "?r = (fst ?r, snd ?r)" by simp
  have "length (snapshots (fst ?r)) = 4" by code_simp
  then have 3: "length (snapshots (fst ?r)) < 2 ^ 64" by simp
  have 4: "unat (1::size_t) < length (snapshots ex_store)" by code_simp
  from snapshots_append_only[OF 1 2 3] 1 3 4 show ?thesis by blast
qed

text \<open>
  C7 (amended). A version number above \<open>get_version\<close>, other than the sentinel
  \<^verbatim>\<open>static_cast<size_t>(-1)\<close>, yields \<^verbatim>\<open>std::nullopt\<close> for every key and type. The
  sentinel, also when the caller passes it explicitly, selects the latest version: on a
  store with a snapshot (the vector's size within \<^verbatim>\<open>size_t\<close>) the lookup at \<open>- 1\<close> is the
  lookup at \<open>get_version\<close>, that is, \<open>Get\<close> on the newest snapshot, guarded by it.
\<close>

theorem TrieStore_Get_version_out_of_range:
  "(version \<noteq> - 1 \<and> get_version s < version \<longrightarrow> TrieStore_Get s h T key version = None) \<and>
   (snapshots s \<noteq> [] \<and> length (snapshots s) < 2 ^ 64 \<longrightarrow>
      TrieStore_Get s h T key (- 1) = TrieStore_Get s h T key (get_version s) \<and>
      TrieStore_Get s h T key (- 1) =
        (case Get h (last (snapshots s)) T key of
           None \<Rightarrow> None
         | Some v \<Rightarrow> Some \<lparr>guard_root = last (snapshots s), guard_value = v\<rparr>))"
proof (intro conjI impI)
  assume a: "version \<noteq> - 1 \<and> get_version s < version"
  have "vec_size (snapshots s) \<le> version"
  proof (cases "snapshots s = []")
    case True
    then show ?thesis by (simp add: vec_size_def)
  next
    case False
    with a have "vec_size (snapshots s) - 1 < version" by (simp add: get_version_def)
    then have "vec_size (snapshots s) - 1 + 1 \<le> version" by (rule inc_le)
    then show ?thesis by simp
  qed
  with a show "TrieStore_Get s h T key version = None" by (simp add: TrieStore_Get_def)
next
  assume a: "snapshots s \<noteq> [] \<and> length (snapshots s) < 2 ^ 64"
  then have ne: "snapshots s \<noteq> []" and len: "length (snapshots s) < 2 ^ 64" by simp_all
  have nz: "vec_size (snapshots s) \<noteq> 0" using ne by (simp add: vec_size_eq_0[OF len])
  have gv: "get_version s = vec_size (snapshots s) - 1" using ne by (simp add: get_version_def)
  have nm: "get_version s \<noteq> - 1" using nz by (simp add: gv)
  show "TrieStore_Get s h T key (- 1) = TrieStore_Get s h T key (get_version s)"
    using ne nm by (simp add: TrieStore_Get_def gv)
  have un: "unat (vec_size (snapshots s) - 1) = length (snapshots s) - 1"
    using nz by (simp add: unat_minus_one unat_vec_size[OF len])
  have "unat (vec_size (snapshots s) - 1) < unat (vec_size (snapshots s))"
    using nz by (simp add: unat_minus_one unat_gt_0)
  then have lt: "\<not> vec_size (snapshots s) \<le> vec_size (snapshots s) - 1"
    by (simp add: word_less_nat_alt not_le)
  have "snapshots s ! unat (vec_size (snapshots s) - 1) = last (snapshots s)"
    using ne by (simp add: un last_conv_nth)
  then show "TrieStore_Get s h T key (- 1) =
        (case Get h (last (snapshots s)) T key of
           None \<Rightarrow> None
         | Some v \<Rightarrow> Some \<lparr>guard_root = last (snapshots s), guard_value = v\<rparr>)"
    using ne lt by (simp add: TrieStore_Get_def Let_def)
qed

text \<open>
  C7 at the store after one \<open>Put ''a''\<close> (versions 0 and 1): version 5, and the sentinel.
\<close>

theorem TrieStore_Get_version_out_of_range_witness:
  "(5::size_t) \<noteq> - 1 \<and> get_version ex_store < 5 \<and>
   TrieStore_Get ex_store ex_heap ''int'' ''a'' 5 = None \<and>
   snapshots ex_store \<noteq> [] \<and> length (snapshots ex_store) < 2 ^ 64 \<and>
   TrieStore_Get ex_store ex_heap ''int'' ''a'' (- 1)
     = TrieStore_Get ex_store ex_heap ''int'' ''a'' (get_version ex_store)"
proof -
  have 1: "(5::size_t) \<noteq> - 1" by simp
  have 2: "get_version ex_store < 5" by code_simp
  have 3: "snapshots ex_store \<noteq> []" by code_simp
  have "length (snapshots ex_store) = 2" by code_simp
  then have 4: "length (snapshots ex_store) < 2 ^ 64" by simp
  from TrieStore_Get_version_out_of_range[where version = 5 and s = ex_store and h = ex_heap
      and T = "''int''" and key = "''a''"] 1 2 3 4
  show ?thesis by simp
qed

text \<open>
  C7 as stated fails at the sentinel: \<open>- 1\<close> is the largest \<^verbatim>\<open>size_t\<close>, above the current
  maximum 1, and line 309 reads it as "latest" also when the caller passes it explicitly,
  so the lookup returns a guard.
\<close>

theorem TrieStore_Get_sentinel_counterexample:
  "get_version ex_store < - 1 \<and>
   TrieStore_Get ex_store ex_heap ''int'' ''a'' (- 1)
     = Some \<lparr>guard_root = ex_trie, guard_value = 0\<rparr>"
  by code_simp

text \<open>
  C8. When the key holds a value of type \<open>U\<close> and another type \<open>T\<close> is requested, \<open>Get\<close>
  returns the null pointer, the same result as for any key that is not stored, although the
  lookup with \<open>U\<close> succeeds. The result type has no error value.
\<close>

theorem Get_type_mismatch_is_absent:
  assumes "stored_as h t k U" and "T \<noteq> U"
  shows "Get h t T k = None \<and> (\<exists>p. Get h t U k = Some p) \<and>
         (\<forall>k'. \<not> stored h t k' \<longrightarrow> Get h t T k' = None)"
proof -
  from assms(1) obtain a ch p where a: "find_node h t k = Some a"
    and n: "node_at h a = TrieNodeWithValue ch True U p"
    by (auto simp: stored_as_def split: option.splits TrieNode.splits)
  then have o: "orig h t k = TrieNodeWithValue ch True U p" by (simp add: orig_def)
  have 1: "Get h t T k = None" using assms(2) by (simp add: Get_orig o Get_value_def)
  have 2: "Get h t U k = Some p" by (simp add: Get_orig o Get_value_def)
  have 3: "Get h t T k' = None" if "\<not> stored h t k'" for k'
    using that by (simp add: Get_orig stored_orig)
  from 1 2 3 show ?thesis by blast
qed

text \<open>
  C8 at the trie holding an \<open>int\<close> under \<open>''a''\<close>, asked for a \<open>string\<close>.
\<close>

theorem Get_type_mismatch_is_absent_witness:
  "stored_as ex_heap ex_trie ''a'' ''int'' \<and> ''string'' \<noteq> ''int'' \<and>
   Get ex_heap ex_trie ''string'' ''a'' = None \<and>
   \<not> stored ex_heap ex_trie ''b'' \<and> Get ex_heap ex_trie ''string'' ''b'' = None"
proof -
  have 1: "stored_as ex_heap ex_trie ''a'' ''int''" by code_simp
  have 2: "''string'' \<noteq> ''int''" by simp
  have 3: "\<not> stored ex_heap ex_trie ''b''" by code_simp
  from Get_type_mismatch_is_absent[OF 1 2] 1 2 3 show ?thesis by blast
qed

text \<open>
  The pointer \<open>Get\<close> returns is the \<open>value_ptr\<close> of a node the trie owns.
\<close>

lemma Get_Some_owned: "Get h t T key = Some p \<Longrightarrow> p \<in> owned_values h t"
proof -
  assume "Get h t T key = Some p"
  then obtain a where a: "find_node h t key = Some a" and v: "Get_value (node_at h a) T = Some p"
    by (auto simp: Get_def find_node_def split: option.splits)
  from v obtain ch iv where "node_at h a = TrieNodeWithValue ch iv T p"
    by (cases "node_at h a") (auto simp: Get_value_def split: if_splits)
  with a show ?thesis by (auto simp: owned_values_def owned_nodes_def)
qed

text \<open>
  C9. Under shared ownership an object lives as long as a handle that is still held
  reaches it through owning pointers (\<open>alive_nodes\<close>, \<open>alive_values\<close>). For a guard
  returned by \<open>TrieStore_Get\<close>, after any further \<open>Put\<close> and \<open>Remove\<close> calls on the store and
  for any list of held handles that contains the guard's own (the list may hold nothing
  else: the store and its snapshot vector are gone), the payload the guard refers to is
  alive and unchanged, the guard's trie still yields it, and every node of the guard's
  snapshot is alive and unchanged.
\<close>

theorem ValueGuard_keeps_snapshot_alive:
  assumes "wf_store s h" and "TrieStore_Get s h T key version = Some g"
    and "apply_ops s h ops = (s', h')" and "guard_root g \<in> set handles"
  shows "guard_value g \<in> alive_values h' handles \<and>
         value_at h' (guard_value g) = value_at h (guard_value g) \<and>
         Get h' (guard_root g) T key = Some (guard_value g) \<and>
         (\<forall>a \<in> owned_nodes h (guard_root g).
            a \<in> alive_nodes h' handles \<and> node_at h' a = node_at h a)"
proof -
  from apply_ops_ok[OF assms(1,3)] have ext: "heap_extends h h'" by simp
  have wfh: "wf_heap h" using assms(1) by (simp add: wf_store_def)
  from TrieStore_Get_Some[OF assms(2)] have "guard_root g \<in> set (snapshots s)"
    and get: "Get h (guard_root g) T key = Some (guard_value g)" by simp_all
  then have wft: "wf_trie h (guard_root g)" using assms(1) by (simp add: wf_store_def list_all_iff)
  have get': "Get h' (guard_root g) T key = Some (guard_value g)"
    using Get_frame[OF wfh wft ext] get by simp
  from Get_Some_owned[OF get'] assms(4) have 1: "guard_value g \<in> alive_values h' handles"
    by (auto simp: alive_values_def)
  have 2: "value_at h' (guard_value g) = value_at h (guard_value g)"
    by (rule heap_extends_value_at[OF ext Get_bound[OF wfh wft get]])
  have 3: "a \<in> alive_nodes h' handles \<and> node_at h' a = node_at h a"
    if "a \<in> owned_nodes h (guard_root g)" for a
  proof -
    from that obtain ks where ks: "find_node h (guard_root g) ks = Some a"
      by (auto simp: owned_nodes_def)
    then have "find_node h' (guard_root g) ks = Some a"
      by (simp add: find_node_frame[OF wfh wft ext])
    then have "a \<in> alive_nodes h' handles" using assms(4)
      by (auto simp: alive_nodes_def owned_nodes_def)
    moreover have "node_at h' a = node_at h a"
      by (rule heap_extends_node_at[OF ext find_node_bound[OF wfh wft ks]])
    ultimately show ?thesis by simp
  qed
  from 1 2 get' 3 show ?thesis by blast
qed

text \<open>
  C9 at the store after one \<open>Put ''a''\<close>: the guard of \<open>''a''\<close> at the latest version, then
  \<open>''a''\<close> is removed and put again, and only the guard's handle is held.
\<close>

theorem ValueGuard_keeps_snapshot_alive_witness:
  "wf_store ex_store ex_heap \<and>
   TrieStore_Get ex_store ex_heap ''int'' ''a'' (- 1)
     = Some \<lparr>guard_root = ex_trie, guard_value = 0\<rparr> \<and>
   0 \<in> alive_values (snd (apply_ops ex_store ex_heap [Op_Remove ''a'', Op_Put ''a'' ''int'' 5]))
         [ex_trie] \<and>
   value_at (snd (apply_ops ex_store ex_heap [Op_Remove ''a'', Op_Put ''a'' ''int'' 5])) 0 = 1"
proof -
  let ?r = "apply_ops ex_store ex_heap [Op_Remove ''a'', Op_Put ''a'' ''int'' 5]"
  let ?g = "\<lparr>guard_root = ex_trie, guard_value = 0\<rparr>"
  have 1: "wf_store ex_store ex_heap" by code_simp
  have 2: "TrieStore_Get ex_store ex_heap ''int'' ''a'' (- 1) = Some ?g" by code_simp
  have 3: "?r = (fst ?r, snd ?r)" by simp
  have 4: "guard_root ?g \<in> set [ex_trie]" by simp
  have 5: "value_at ex_heap 0 = 1" by code_simp
  from ValueGuard_keeps_snapshot_alive[OF 1 2 3 4] 1 2 5 show ?thesis by simp
qed

text \<open>
  C10. The root of the trie \<open>Put\<close> returns is an object that did not exist before the call,
  so the result is never identity-equal to the input, whatever the key held before.
  \<open>TrieStore_Put\<close> therefore always appends the new trie, which differs from the previous
  newest snapshot, and returns a version number strictly above the prior \<open>get_version\<close>.
\<close>

theorem Put_never_returns_its_input:
  "(wf_heap h \<and> wf_trie h t \<longrightarrow>
      (\<exists>r. root (fst (Put h t k T v)) = Some r \<and> length (nodes h) \<le> r) \<and>
      \<not> Trie_eq (fst (Put h t k T v)) t) \<and>
   (wf_store s h \<and> length (snapshots s) < 2 ^ 64 \<longrightarrow>
      (case TrieStore_Put s h k T v of (ver, s', h') \<Rightarrow>
         snapshots s' = snapshots s @ [fst (Put h (last (snapshots s)) k T v)] \<and>
         \<not> Trie_eq (last (snapshots s')) (last (snapshots s)) \<and>
         get_version s < ver))"
proof (intro conjI impI)
  assume "wf_heap h \<and> wf_trie h t"
  then have wf0: "wf_heap h" "wf_trie h t" by simp_all
  from Put_not_identity[OF wf0, of k T v]
  show "\<exists>r. root (fst (Put h t k T v)) = Some r \<and> length (nodes h) \<le> r" by blast
  from Put_not_identity[OF wf0, of k T v]
  show "\<not> Trie_eq (fst (Put h t k T v)) t" by (auto simp: Trie_eq_iff)
next
  assume a: "wf_store s h \<and> length (snapshots s) < 2 ^ 64"
  then have ws: "wf_store s h" and len: "length (snapshots s) < 2 ^ 64" by simp_all
  from ws have ne: "snapshots s \<noteq> []" and wfh: "wf_heap h" by (simp_all add: wf_store_def)
  have wfl: "wf_trie h (last (snapshots s))" by (rule wf_store_last[OF ws])
  obtain t2 h2 where put: "Put h (last (snapshots s)) k T v = (t2, h2)"
    by (cases "Put h (last (snapshots s)) k T v")
  from Put_not_identity[OF wfh wfl, of k T v] have neq: "t2 \<noteq> last (snapshots s)"
    by (auto simp: put)
  have nz: "vec_size (snapshots s) \<noteq> 0" using ne by (simp add: vec_size_eq_0[OF len])
  have "unat (vec_size (snapshots s) - 1) < unat (vec_size (snapshots s))"
    using nz by (simp add: unat_minus_one unat_gt_0)
  then have "get_version s < vec_size (snapshots s)"
    using ne by (simp add: get_version_def word_less_nat_alt)
  then show "case TrieStore_Put s h k T v of (ver, s', h') \<Rightarrow>
         snapshots s' = snapshots s @ [fst (Put h (last (snapshots s)) k T v)] \<and>
         \<not> Trie_eq (last (snapshots s')) (last (snapshots s)) \<and>
         get_version s < ver"
    using neq by (simp add: TrieStore_Put_def put vec_size_snoc Trie_eq_iff)
qed

text \<open>
  C10 at the trie holding 1 under \<open>''a''\<close>, putting the equal value 1 under \<open>''a''\<close>.
\<close>

theorem Put_never_returns_its_input_witness:
  "wf_heap ex_heap \<and> wf_trie ex_heap ex_trie \<and> wf_store ex_store ex_heap \<and>
   length (snapshots ex_store) < 2 ^ 64 \<and>
   Get ex_heap ex_trie ''int'' ''a'' = Some 0 \<and> value_at ex_heap 0 = 1 \<and>
   \<not> Trie_eq (fst (Put ex_heap ex_trie ''a'' ''int'' 1)) ex_trie \<and>
   get_version ex_store < fst (TrieStore_Put ex_store ex_heap ''a'' ''int'' 1)"
proof -
  have 1: "wf_heap ex_heap" by code_simp
  have 2: "wf_trie ex_heap ex_trie" by code_simp
  have 3: "wf_store ex_store ex_heap" by code_simp
  have "length (snapshots ex_store) = 2" by code_simp
  then have 4: "length (snapshots ex_store) < 2 ^ 64" by simp
  have 5: "Get ex_heap ex_trie ''int'' ''a'' = Some 0" "value_at ex_heap 0 = 1" by code_simp+
  from Put_never_returns_its_input[where h = ex_heap and t = ex_trie and s = ex_store
      and k = "''a''" and T = "''int''" and v = 1] 1 2 3 4 5
  show ?thesis by (auto split: prod.splits)
qed

end
